theory Spec2Isabelle
  imports Main
begin

section \<open>The execution-graph builder (typescript/api/builder.ts)\<close>

subsection \<open>Data model\<close>

text \<open>
  The protobuf messages the builder reads. Only the fields that builder.ts touches are
  named; whatever else a message carries (a materialization's query and target, further
  run options) sits in the record's extension slot and reaches the adapter untouched.
  An absent repeated field reads as the empty list, an absent boolean as False.
  The project configuration is opaque to the builder: a type parameter.
\<close>

record Entity =
  name :: string
  dependencies :: "string list"

record Materialization = Entity +
  pres :: "string list"
  posts :: "string list"
  assertions :: "string list"

record Operation = Entity +
  statements :: "string list"

record Assertion = Entity +
  queries :: "string list"

text \<open>
  A task is a plain object literal: \<^verbatim>\<open>{ statement: pre }\<close> has no \<^verbatim>\<open>type\<close> key at all,
  \<^verbatim>\<open>{ type: "statement", statement: s }\<close> has one. The key is therefore optional.
\<close>

record ExecutionTask =
  type :: "string option"
  statement :: string

record ExecutionNode = Entity +
  tasks :: "ExecutionTask list"

record RunConfig =
  nodes :: "string list"
  includeDependencies :: bool

record ('cfg, 'm) CompiledGraph =
  projectConfig :: 'cfg
  materializations :: "'m Materialization_scheme list"
  operations :: "Operation list"
  assertions :: "Assertion list"

record ('cfg, 'r) ExecutionGraph =
  projectConfig :: 'cfg
  runConfig :: "'r RunConfig_scheme"
  nodes :: "ExecutionNode list"

text \<open>
  What a call can throw: \<^verbatim>\<open>Error(message)\<close>, raised by the builder itself, and the
  TypeError of reading a property of \<^verbatim>\<open>undefined\<close>.
\<close>

datatype error = Error string | TypeError

text \<open>
  The two collaborators of the builder whose code lives elsewhere:
  \<^verbatim>\<open>adapters.create(projectConfig)\<close>, whose \<^verbatim>\<open>build\<close> method yields the tasks of a
  materialization, and \<^verbatim>\<open>utils.matchPatterns(patterns, values)\<close>. Both are parameters
  of the model; both are taken to return normally, and the matcher to return a fresh
  array.
\<close>

type_synonym ('m, 'r) Adapter =
  "'m Materialization_scheme \<Rightarrow> 'r RunConfig_scheme \<Rightarrow> ExecutionTask list"

type_synonym Matcher = "string list \<Rightarrow> string list \<Rightarrow> string list"

subsection \<open>Translation of entities into execution nodes\<close>

definition buildMaterialization ::
  "('m, 'r) Adapter \<Rightarrow> 'r RunConfig_scheme \<Rightarrow> 'm Materialization_scheme \<Rightarrow> ExecutionNode" where
  "buildMaterialization adapter rc materialization =
     \<lparr> name = name materialization,
       dependencies = dependencies materialization,
       tasks =
         map (\<lambda>pre. \<lparr> type = None, statement = pre \<rparr>) (pres materialization) @
         adapter materialization rc @
         map (\<lambda>post. \<lparr> type = None, statement = post \<rparr>) (posts materialization) @
         map (\<lambda>assertion. \<lparr> type = Some ''assertion'', statement = assertion \<rparr>)
           (Materialization.assertions materialization) \<rparr>"

definition buildOperation :: "Operation \<Rightarrow> ExecutionNode" where
  "buildOperation operation =
     \<lparr> name = name operation,
       dependencies = dependencies operation,
       tasks = map (\<lambda>stmt. \<lparr> type = Some ''statement'', statement = stmt \<rparr>)
                 (statements operation) \<rparr>"

definition buildAssertion :: "Assertion \<Rightarrow> ExecutionNode" where
  "buildAssertion assertion =
     \<lparr> name = name assertion,
       dependencies = dependencies assertion,
       tasks = map (\<lambda>query. \<lparr> type = Some ''assertion'', statement = query \<rparr>)
                 (queries assertion) \<rparr>"

definition translate ::
  "('m, 'r) Adapter \<Rightarrow> ('cfg, 'm) CompiledGraph \<Rightarrow> 'r RunConfig_scheme \<Rightarrow> ExecutionNode list" where
  "translate adapter compiledGraph rc =
     map (buildMaterialization adapter rc) (materializations compiledGraph) @
     map buildOperation (operations compiledGraph) @
     map buildAssertion (CompiledGraph.assertions compiledGraph)"

subsection \<open>Validation\<close>

text \<open>
  \<^verbatim>\<open>xs.forEach(f)\<close> where \<^verbatim>\<open>f\<close> may throw: the first exception ends the loop and is the
  outcome of the whole statement.
\<close>

fun forEach :: "('a \<Rightarrow> error + unit) \<Rightarrow> 'a list \<Rightarrow> error + unit" where
  "forEach f [] = Inr ()"
| "forEach f (x # xs) = (case f x of Inl e \<Rightarrow> Inl e | Inr _ \<Rightarrow> forEach f xs)"

lemma forEach_cong [fundef_cong]:
  "xs = ys \<Longrightarrow> (\<And>x. x \<in> set ys \<Longrightarrow> f x = g x) \<Longrightarrow> forEach f xs = forEach g ys"
  by (induction ys arbitrary: xs) (auto split: sum.splits)

text \<open>\<^verbatim>\<open>parts.join(sep)\<close> of JavaScript.\<close>

fun join :: "string \<Rightarrow> string list \<Rightarrow> string" where
  "join sep [] = []"
| "join sep [x] = x"
| "join sep (x # y # ys) = x @ sep @ join sep (y # ys)"

definition missing_message :: "string \<Rightarrow> string \<Rightarrow> string" where
  "missing_message node_name dependency =
     ''Node '' @ [CHR 0x22] @ node_name @ [CHR 0x22] @ '' depends on '' @
     [CHR 0x22] @ dependency @ [CHR 0x22] @ '' which does not exist.''"

definition circular_message :: "string list \<Rightarrow> string \<Rightarrow> string" where
  "circular_message dependent_names node_name =
     ''Circular dependency detected in chain: ['' @ join '' > '' dependent_names @
     '' > '' @ node_name @ '']''"

text \<open>Lines 40 to 51: every dependency of every node must be the name of a node.\<close>

definition checkExist :: "ExecutionNode list \<Rightarrow> string list \<Rightarrow> error + unit" where
  "checkExist allNodes allNodeNames =
     forEach (\<lambda>node.
       forEach (\<lambda>dependency.
         if dependency \<notin> set allNodeNames
         then Inl (Error (missing_message (name node) dependency))
         else Inr ()) (dependencies node)) allNodes"

text \<open>
  Node objects are compared by identity (\<^verbatim>\<open>dependents.indexOf(node)\<close>), and two nodes of
  equal content are still two objects. A reference to a node is therefore its position in
  \<^verbatim>\<open>allNodes\<close>; \<^verbatim>\<open>nodeNameMap\<close> sends a name to the reference stored last under it, and
  \<^verbatim>\<open>None\<close> is JavaScript's \<^verbatim>\<open>undefined\<close>.
\<close>

definition nodeNameMap :: "ExecutionNode list \<Rightarrow> string \<rightharpoonup> nat" where
  "nodeNameMap allNodes =
     fold (\<lambda>node m. m(name (allNodes ! node) \<mapsto> node)) [0..<length allNodes] Map.empty"

text \<open>
  Lines 53 to 67. Called with \<^verbatim>\<open>undefined\<close>, \<^verbatim>\<open>indexOf\<close> finds nothing and reading
  \<^verbatim>\<open>node.dependencies\<close> throws a TypeError. A position beyond \<^verbatim>\<open>allNodes\<close> refers to no
  object and is treated likewise; the builder never produces one.
\<close>

function checkCircular ::
  "ExecutionNode list \<Rightarrow> nat option \<Rightarrow> nat list \<Rightarrow> error + unit" where
  "checkCircular allNodes None dependents = Inl TypeError"
| "checkCircular allNodes (Some node) dependents =
     (if node \<in> set dependents
      then Inl (Error (circular_message (map (\<lambda>d. name (allNodes ! d)) dependents)
                         (name (allNodes ! node))))
      else if \<not> node < length allNodes then Inl TypeError
      else forEach (\<lambda>d. checkCircular allNodes (nodeNameMap allNodes d) (dependents @ [node]))
             (dependencies (allNodes ! node)))"
  by pat_completeness auto
termination
proof (relation "measure (\<lambda>(allNodes, node, dependents).
                   card ({..<length allNodes} - set dependents))")
  show "wf (measure (\<lambda>(allNodes, node, dependents).
              card ({..<length allNodes} - set dependents)))"
    by simp
next
  fix allNodes :: "ExecutionNode list" and node :: nat and dependents :: "nat list"
    and x :: string
  assume fresh: "node \<notin> set dependents" and inside: "\<not> \<not> node < length allNodes"
  have "{..<length allNodes} - set (dependents @ [node])
          \<subset> {..<length allNodes} - set dependents"
    using fresh inside by auto
  then have "card ({..<length allNodes} - set (dependents @ [node]))
               < card ({..<length allNodes} - set dependents)"
    by (intro psubset_card_mono) auto
  then show "((allNodes, nodeNameMap allNodes x, dependents @ [node]),
              (allNodes, Some node, dependents))
             \<in> measure (\<lambda>(allNodes, node, dependents).
                   card ({..<length allNodes} - set dependents))"
    by simp
qed

text \<open>Lines 40 to 68 together: the existence check, then the cycle check from every node.\<close>

definition validate :: "ExecutionNode list \<Rightarrow> error + unit" where
  "validate allNodes =
     (case checkExist allNodes (map name allNodes) of
        Inl e \<Rightarrow> Inl e
      | Inr _ \<Rightarrow> forEach (\<lambda>node. checkCircular allNodes (Some node) [])
                  [0..<length allNodes])"

text \<open>
  The same traversal with the depth of the call stack counted: \<^verbatim>\<open>None\<close> when a call would
  nest deeper than \<^verbatim>\<open>depth\<close> frames, the outcome of the call otherwise. It serves to state
  how deep the recursion of \<^verbatim>\<open>checkCircular\<close> can go.
\<close>

fun forEach_depth :: "('a \<Rightarrow> (error + unit) option) \<Rightarrow> 'a list \<Rightarrow> (error + unit) option" where
  "forEach_depth f [] = Some (Inr ())"
| "forEach_depth f (x # xs) =
     (case f x of
        None \<Rightarrow> None
      | Some (Inl e) \<Rightarrow> Some (Inl e)
      | Some (Inr _) \<Rightarrow> forEach_depth f xs)"

fun checkCircular_depth ::
  "nat \<Rightarrow> ExecutionNode list \<Rightarrow> nat option \<Rightarrow> nat list \<Rightarrow> (error + unit) option" where
  "checkCircular_depth 0 allNodes x dependents = None"
| "checkCircular_depth (Suc depth) allNodes None dependents = Some (Inl TypeError)"
| "checkCircular_depth (Suc depth) allNodes (Some node) dependents =
     (if node \<in> set dependents
      then Some (Inl (Error (circular_message (map (\<lambda>d. name (allNodes ! d)) dependents)
                               (name (allNodes ! node)))))
      else if \<not> node < length allNodes then Some (Inl TypeError)
      else forEach_depth
             (\<lambda>d. checkCircular_depth depth allNodes (nodeNameMap allNodes d)
                    (dependents @ [node]))
             (dependencies (allNodes ! node)))"


subsection \<open>Selection, expansion and pruning\<close>

text \<open>
  The three variables the selection code updates. When \<^verbatim>\<open>runConfig.nodes\<close> is empty or
  absent, \<^verbatim>\<open>includedNodeNames\<close> is not a copy of \<^verbatim>\<open>allNodeNames\<close> but the very same array,
  so a \<^verbatim>\<open>push\<close> onto the one is seen through the other: the flag \<^verbatim>\<open>aliased\<close> records it.
\<close>

record Selection =
  allNodeNames :: "string list"
  includedNodeNames :: "string list"
  includedNodes :: "ExecutionNode list"

text \<open>Lines 87 to 91: the body of the loop over \<^verbatim>\<open>matchingNodeNames\<close>.\<close>

definition push :: "bool \<Rightarrow> string \<Rightarrow> Selection \<Rightarrow> Selection" where
  "push aliased nodeName s =
     (if nodeName \<in> set (includedNodeNames s) then s
      else s\<lparr> includedNodeNames := includedNodeNames s @ [nodeName],
              allNodeNames := (if aliased then allNodeNames s @ [nodeName]
                               else allNodeNames s) \<rparr>)"

text \<open>Lines 81 to 96: the body of the loop over the included nodes.\<close>

definition expand_node ::
  "Matcher \<Rightarrow> bool \<Rightarrow> ExecutionNode list \<Rightarrow> ExecutionNode \<Rightarrow> Selection \<Rightarrow> Selection" where
  "expand_node mp aliased allNodes node s =
     (let matchingNodeNames =
            (if dependencies node \<noteq> [] then mp (dependencies node) (allNodeNames s) else []);
          s' = fold (push aliased) matchingNodeNames s
      in s'\<lparr> includedNodes :=
                filter (\<lambda>n. name n \<in> set (includedNodeNames s')) allNodes \<rparr>)"

text \<open>
  One round of the \<^verbatim>\<open>for\<close> loop. \<^verbatim>\<open>includedNodes.forEach\<close> walks the array that the
  variable held when the round began; the assignments inside the callback bind the
  variable to new arrays and do not change the walk.
\<close>

definition expand_pass ::
  "Matcher \<Rightarrow> bool \<Rightarrow> ExecutionNode list \<Rightarrow> Selection \<Rightarrow> Selection" where
  "expand_pass mp aliased allNodes s =
     fold (expand_node mp aliased allNodes) (includedNodes s) s"

text \<open>Lines 70 to 98: the state when pruning begins.\<close>

definition select ::
  "Matcher \<Rightarrow> ExecutionNode list \<Rightarrow> 'r RunConfig_scheme \<Rightarrow> Selection" where
  "select mp allNodes rc =
     (let names = map name allNodes;
          aliased = (RunConfig.nodes rc = []);
          included = (if \<not> aliased then mp (RunConfig.nodes rc) names else names);
          s = \<lparr> allNodeNames = names,
                includedNodeNames = included,
                includedNodes = filter (\<lambda>node. name node \<in> set included) allNodes \<rparr>
      in if includeDependencies rc
         then (expand_pass mp aliased allNodes ^^ length allNodes) s
         else s)"

text \<open>Lines 100 to 105: every included node gets a new dependency list.\<close>

definition prune :: "Matcher \<Rightarrow> Selection \<Rightarrow> ExecutionNode list" where
  "prune mp s =
     map (\<lambda>node. node\<lparr> dependencies := mp (dependencies node) (includedNodeNames s) \<rparr>)
       (includedNodes s)"

subsection \<open>The builder\<close>

definition build ::
  "Matcher \<Rightarrow> ('cfg \<Rightarrow> ('m, 'r) Adapter) \<Rightarrow> ('cfg, 'm) CompiledGraph \<Rightarrow> 'r RunConfig_scheme
     \<Rightarrow> error + ('cfg, 'r) ExecutionGraph" where
  "build mp adapters_create compiledGraph rc =
     (let adapter = adapters_create (CompiledGraph.projectConfig compiledGraph);
          allNodes = translate adapter compiledGraph rc
      in case validate allNodes of
           Inl e \<Rightarrow> Inl e
         | Inr _ \<Rightarrow>
             Inr \<lparr> projectConfig = CompiledGraph.projectConfig compiledGraph,
                   runConfig = rc,
                   nodes = prune mp (select mp allNodes rc) \<rparr>)"

subsection \<open>The pattern matcher\<close>

text \<open>
  Modelled from the spec: the wildcard test inside \<^verbatim>\<open>utils.matchPatterns\<close>, a function of
  the core package that is not among the source files. By section 4.1 of the
  specification a selector matches a candidate by equality or by wildcard, \<^verbatim>\<open>*\<close> standing
  for any prefix or suffix; here \<^verbatim>\<open>*\<close> stands for any run of characters wherever it
  occurs, so that a selector without \<^verbatim>\<open>*\<close> matches its own text and nothing else.
\<close>

fun matchesPattern :: "string \<Rightarrow> string \<Rightarrow> bool" where
  "matchesPattern [] v = (v = [])"
| "matchesPattern (p # ps) v =
     (if p = CHR ''*''
      then matchesPattern ps v \<or> (case v of [] \<Rightarrow> False | _ # w \<Rightarrow> matchesPattern (p # ps) w)
      else (case v of [] \<Rightarrow> False | c # w \<Rightarrow> c = p \<and> matchesPattern ps w))"

text \<open>
  Modelled from the spec: \<^verbatim>\<open>utils.matchPatterns\<close> itself, by the contract of section 4.1:
  the candidates that match at least one selector, in the candidates' order. No candidate
  is repeated: the result has a duplicate only where the candidates have one.
\<close>

definition matchPatterns :: Matcher where
  "matchPatterns patterns vals =
     filter (\<lambda>v. list_ex (\<lambda>pattern. matchesPattern pattern v) patterns) vals"

subsection \<open>Vocabulary of the specification\<close>

text \<open>
  The task kinds of the specification: a task typed \<^verbatim>\<open>statement\<close> and a task typed
  \<^verbatim>\<open>assertion\<close>.
\<close>

definition statement_task :: "string \<Rightarrow> ExecutionTask" where
  "statement_task s = \<lparr> type = Some ''statement'', statement = s \<rparr>"

definition assertion_task :: "string \<Rightarrow> ExecutionTask" where
  "assertion_task s = \<lparr> type = Some ''assertion'', statement = s \<rparr>"

text \<open>
  The dependency graph on names: an edge from a node's name to each of its dependencies.
  A dangling name makes \<^verbatim>\<open>dependencies_exist\<close> false. \<^verbatim>\<open>resolved_edges\<close> is the graph the
  traversal walks: between node objects, each dependency resolved through \<^verbatim>\<open>nodeNameMap\<close>.
\<close>

definition resolved_edges :: "ExecutionNode list \<Rightarrow> (nat \<times> nat) set" where
  "resolved_edges allNodes =
     {(i, j). i < length allNodes \<and>
              (\<exists>d \<in> set (dependencies (allNodes ! i)). nodeNameMap allNodes d = Some j)}"

definition dependency_graph :: "ExecutionNode list \<Rightarrow> (string \<times> string) set" where
  "dependency_graph allNodes =
     {(a, d). \<exists>node \<in> set allNodes. name node = a \<and> d \<in> set (dependencies node)}"

definition dependencies_exist :: "ExecutionNode list \<Rightarrow> bool" where
  "dependencies_exist allNodes \<longleftrightarrow>
     (\<forall>node \<in> set allNodes. \<forall>d \<in> set (dependencies node). d \<in> set (map name allNodes))"

text \<open>
  The path of the traversal that throws, told without the traversal. A call of
  \<^verbatim>\<open>checkCircular\<close> on node \<^verbatim>\<open>i\<close> with the chain \<^verbatim>\<open>chain\<close> \<^verbatim>\<open>passes\<close> (returns) when nothing
  that can be reached from \<^verbatim>\<open>i\<close> is on the chain or on a cycle. The path \<^verbatim>\<open>p\<close> \<^verbatim>\<open>descends\<close> at
  position \<^verbatim>\<open>k\<close> when its next node is what some dependency of \<^verbatim>\<open>p ! k\<close> resolves to, and
  the calls for the dependencies listed before that one pass. A \<^verbatim>\<open>thrown_path\<close> starts at
  a node of the sequence before which the call of every node passes (line 68: every node
  is a root, in the order of \<^verbatim>\<open>allNodes\<close>), descends at every position (lines 64 to 66: the
  dependencies in declared order), and ends at the first node met for the second time
  (line 57). Its nodes but the last are the chain \<^verbatim>\<open>dependents\<close> of the call that throws, and
  its last node is the argument \<^verbatim>\<open>node\<close> of that call.
\<close>

definition passes :: "ExecutionNode list \<Rightarrow> nat list \<Rightarrow> nat \<Rightarrow> bool" where
  "passes allNodes chain i \<longleftrightarrow>
     (\<forall>c. (i, c) \<in> (resolved_edges allNodes)\<^sup>* \<longrightarrow>
        c \<notin> set chain \<and> (c, c) \<notin> (resolved_edges allNodes)\<^sup>+)"

definition descends :: "ExecutionNode list \<Rightarrow> nat list \<Rightarrow> nat \<Rightarrow> bool" where
  "descends allNodes p k \<longleftrightarrow>
     (\<exists>q < length (dependencies (allNodes ! (p ! k))).
        nodeNameMap allNodes (dependencies (allNodes ! (p ! k)) ! q) = Some (p ! Suc k) \<and>
        (\<forall>q' < q. \<exists>j. nodeNameMap allNodes (dependencies (allNodes ! (p ! k)) ! q') = Some j \<and>
                       passes allNodes (take (Suc k) p) j))"

definition thrown_path :: "ExecutionNode list \<Rightarrow> nat list \<Rightarrow> bool" where
  "thrown_path allNodes p \<longleftrightarrow>
     p \<noteq> [] \<and> hd p < length allNodes \<and>
     (\<forall>r < hd p. passes allNodes [] r) \<and>
     (\<forall>k. Suc k < length p \<longrightarrow> descends allNodes p k) \<and>
     distinct (butlast p) \<and> last p \<in> set (butlast p)"

text \<open>
  The contract of the matcher that the builder relies on: the result is drawn from the
  candidates. \<^verbatim>\<open>matching\<close> is the value of \<^verbatim>\<open>matchingNodeNames\<close> for a node (lines 82 to 85),
  \<^verbatim>\<open>matched_edges\<close> the graph that expansion follows, from a node's name to every name its
  dependencies match, and \<^verbatim>\<open>initially_included\<close> the names included before expansion
  (lines 71 to 74). \<^verbatim>\<open>selection_ok\<close> is what the selection loop keeps true.
\<close>

definition matcher_selects :: "Matcher \<Rightarrow> bool" where
  "matcher_selects mp \<longleftrightarrow> (\<forall>patterns vals. set (mp patterns vals) \<subseteq> set vals)"

definition matching :: "Matcher \<Rightarrow> ExecutionNode list \<Rightarrow> ExecutionNode \<Rightarrow> string list" where
  "matching mp allNodes node =
     (if dependencies node \<noteq> [] then mp (dependencies node) (map name allNodes) else [])"

definition matched_edges :: "Matcher \<Rightarrow> ExecutionNode list \<Rightarrow> (string \<times> string) set" where
  "matched_edges mp allNodes =
     {(a, b). \<exists>node \<in> set allNodes. name node = a \<and> b \<in> set (matching mp allNodes node)}"

definition initially_included :: "Matcher \<Rightarrow> ExecutionNode list \<Rightarrow> 'r RunConfig_scheme \<Rightarrow> string list" where
  "initially_included mp allNodes rc =
     (if RunConfig.nodes rc \<noteq> [] then mp (RunConfig.nodes rc) (map name allNodes)
      else map name allNodes)"

definition selection_ok :: "bool \<Rightarrow> ExecutionNode list \<Rightarrow> Selection \<Rightarrow> bool" where
  "selection_ok aliased allNodes s \<longleftrightarrow>
     allNodeNames s = map name allNodes \<and>
     set (includedNodeNames s) \<subseteq> set (map name allNodes) \<and>
     (aliased \<longrightarrow> includedNodeNames s = map name allNodes) \<and>
     includedNodes s = filter (\<lambda>n. name n \<in> set (includedNodeNames s)) allNodes"

text \<open>
  The second half of the matcher's contract: selectors without a wildcard select the
  candidates equal to one of them, in the candidates' order.
\<close>

definition matcher_exact :: "Matcher \<Rightarrow> bool" where
  "matcher_exact mp \<longleftrightarrow>
     (\<forall>patterns vals. (\<forall>p \<in> set patterns. CHR ''*'' \<notin> set p) \<longrightarrow>
        mp patterns vals = filter (\<lambda>v. v \<in> set patterns) vals)"

subsection \<open>The builder on a store of arrays\<close>

text \<open>
  The value model above copies lists where the builder shares them: a node created from
  an entity holds the entity's own \<^verbatim>\<open>dependencies\<close> array, not a copy
  (\<^verbatim>\<open>dependencies: materialization.dependencies\<close>), and \<^verbatim>\<open>includedNodeNames\<close> may be the
  array \<^verbatim>\<open>allNodeNames\<close> itself. What the builder does to its input can only be said with
  the arrays in a store. A reference is a position in the store; allocation appends. The
  store holds the arrays of strings that objects hold on to: those of the input entities,
  \<^verbatim>\<open>allNodeNames\<close>, \<^verbatim>\<open>includedNodeNames\<close> and the dependency arrays of the nodes. Arrays
  that are built, read and dropped (\<^verbatim>\<open>matchingNodeNames\<close>, the arrays of nodes and of
  tasks) stay values.
\<close>

type_synonym ref = nat
type_synonym heap = "string list list"

record StoredEntity =
  name_of :: string
  dependencies_at :: ref

record StoredMaterialization = StoredEntity +
  pres_at :: ref
  posts_at :: ref
  assertions_at :: ref

record StoredOperation = StoredEntity +
  statements_at :: ref

record StoredAssertion = StoredEntity +
  queries_at :: ref

record StoredNode = StoredEntity +
  tasks_of :: "ExecutionTask list"

record ('cfg, 'm) StoredGraph =
  config_of :: 'cfg
  materializations_of :: "'m StoredMaterialization_scheme list"
  operations_of :: "StoredOperation list"
  assertions_of :: "StoredAssertion list"

text \<open>The entities and the graph that a store and stored objects stand for.\<close>

definition load_materialization ::
  "heap \<Rightarrow> 'm StoredMaterialization_scheme \<Rightarrow> 'm Materialization_scheme" where
  "load_materialization h m =
     \<lparr> name = name_of m, dependencies = h ! dependencies_at m,
       pres = h ! pres_at m, posts = h ! posts_at m,
       Materialization.assertions = h ! assertions_at m,
       \<dots> = StoredMaterialization.more m \<rparr>"

definition load_operation :: "heap \<Rightarrow> StoredOperation \<Rightarrow> Operation" where
  "load_operation h operation =
     \<lparr> name = name_of operation, dependencies = h ! dependencies_at operation,
       statements = h ! statements_at operation \<rparr>"

definition load_assertion :: "heap \<Rightarrow> StoredAssertion \<Rightarrow> Assertion" where
  "load_assertion h assertion =
     \<lparr> name = name_of assertion, dependencies = h ! dependencies_at assertion,
       queries = h ! queries_at assertion \<rparr>"

definition load_graph :: "heap \<Rightarrow> ('cfg, 'm) StoredGraph \<Rightarrow> ('cfg, 'm) CompiledGraph" where
  "load_graph h g =
     \<lparr> CompiledGraph.projectConfig = config_of g,
       materializations = map (load_materialization h) (materializations_of g),
       operations = map (load_operation h) (operations_of g),
       CompiledGraph.assertions = map (load_assertion h) (assertions_of g) \<rparr>"

definition load_node :: "heap \<Rightarrow> StoredNode \<Rightarrow> ExecutionNode" where
  "load_node h node =
     \<lparr> name = name_of node, dependencies = h ! dependencies_at node, tasks = tasks_of node \<rparr>"

text \<open>The arrays of the input graph.\<close>

definition graph_refs :: "('cfg, 'm) StoredGraph \<Rightarrow> ref set" where
  "graph_refs g =
     (\<Union>m \<in> set (materializations_of g).
         {dependencies_at m, pres_at m, posts_at m, assertions_at m}) \<union>
     (\<Union>operation \<in> set (operations_of g). {dependencies_at operation, statements_at operation}) \<union>
     (\<Union>assertion \<in> set (assertions_of g). {dependencies_at assertion, queries_at assertion})"

text \<open>
  \<^verbatim>\<open>protos.ExecutionNode.create\<close> makes a new node object whose fields are the values it
  is given: for \<^verbatim>\<open>dependencies\<close>, the reference to the entity's array.
\<close>

definition create_node :: "string \<Rightarrow> ref \<Rightarrow> ExecutionTask list \<Rightarrow> StoredNode" where
  "create_node n d ts = \<lparr> name_of = n, dependencies_at = d, tasks_of = ts \<rparr>"

definition translate_stored ::
  "('m, 'r) Adapter \<Rightarrow> heap \<Rightarrow> ('cfg, 'm) StoredGraph \<Rightarrow> 'r RunConfig_scheme \<Rightarrow> StoredNode list" where
  "translate_stored adapter h g rc =
     map (\<lambda>m. create_node (name_of m) (dependencies_at m)
                 (tasks (buildMaterialization adapter rc (load_materialization h m))))
       (materializations_of g) @
     map (\<lambda>operation. create_node (name_of operation) (dependencies_at operation)
                 (tasks (buildOperation (load_operation h operation))))
       (operations_of g) @
     map (\<lambda>assertion. create_node (name_of assertion) (dependencies_at assertion)
                 (tasks (buildAssertion (load_assertion h assertion))))
       (assertions_of g)"

text \<open>
  Lines 87 to 91: \<^verbatim>\<open>includedNodeNames.push(nodeName)\<close> changes the array in place, the only
  write of the builder to an array that exists already.
\<close>

definition push_at :: "ref \<Rightarrow> string \<Rightarrow> heap \<Rightarrow> heap" where
  "push_at r nodeName h =
     (if nodeName \<in> set (h ! r) then h else h[r := h ! r @ [nodeName]])"

definition expand_node_stored ::
  "Matcher \<Rightarrow> ref \<Rightarrow> ref \<Rightarrow> StoredNode list \<Rightarrow> StoredNode
     \<Rightarrow> heap \<times> StoredNode list \<Rightarrow> heap \<times> StoredNode list" where
  "expand_node_stored mp all_at included_at allNodes node st =
     (let h = fst st;
          matchingNodeNames =
            (if h ! dependencies_at node \<noteq> []
             then mp (h ! dependencies_at node) (h ! all_at) else []);
          h' = fold (push_at included_at) matchingNodeNames h
      in (h', filter (\<lambda>n. name_of n \<in> set (h' ! included_at)) allNodes))"

definition expand_pass_stored ::
  "Matcher \<Rightarrow> ref \<Rightarrow> ref \<Rightarrow> StoredNode list
     \<Rightarrow> heap \<times> StoredNode list \<Rightarrow> heap \<times> StoredNode list" where
  "expand_pass_stored mp all_at included_at allNodes st =
     fold (expand_node_stored mp all_at included_at allNodes) (snd st) st"

text \<open>
  Lines 100 to 105: \<^verbatim>\<open>node.dependencies = utils.matchPatterns(...)\<close> stores a reference to
  the matcher's new array in the node; the array the field referred to is not written.
\<close>

fun prune_stored ::
  "Matcher \<Rightarrow> ref \<Rightarrow> StoredNode list \<Rightarrow> heap \<Rightarrow> StoredNode list \<times> heap" where
  "prune_stored mp included_at [] h = ([], h)"
| "prune_stored mp included_at (node # rest) h =
     (let fresh = length h;
          h' = h @ [mp (h ! dependencies_at node) (h ! included_at)];
          (rest', h'') = prune_stored mp included_at rest h'
      in (node\<lparr> dependencies_at := fresh \<rparr> # rest', h''))"

text \<open>
  The builder on the store: the outcome, and the store it leaves behind. Validation only
  reads, so it runs on the nodes as the store shows them at that point.
\<close>

definition build_stored ::
  "Matcher \<Rightarrow> ('cfg \<Rightarrow> ('m, 'r) Adapter) \<Rightarrow> heap \<Rightarrow> ('cfg, 'm) StoredGraph \<Rightarrow> 'r RunConfig_scheme
     \<Rightarrow> (error + 'cfg \<times> 'r RunConfig_scheme \<times> StoredNode list) \<times> heap" where
  "build_stored mp adapters_create h0 g rc =
     (let adapter = adapters_create (config_of g);
          allNodes = translate_stored adapter h0 g rc;
          all_at = length h0;
          h1 = h0 @ [map name_of allNodes]
      in case validate (map (load_node h1) allNodes) of
           Inl e \<Rightarrow> (Inl e, h1)
         | Inr _ \<Rightarrow>
             (let aliased = (RunConfig.nodes rc = []);
                  included_at = (if aliased then all_at else length h1);
                  h2 = (if aliased then h1 else h1 @ [mp (RunConfig.nodes rc) (h1 ! all_at)]);
                  st = (h2, filter (\<lambda>node. name_of node \<in> set (h2 ! included_at)) allNodes);
                  st' = (if includeDependencies rc
                         then (expand_pass_stored mp all_at included_at allNodes
                                 ^^ length allNodes) st
                         else st);
                  (pruned, h3) = prune_stored mp included_at (snd st') (fst st')
              in (Inr (config_of g, rc, pruned), h3)))"

text \<open>
  How the state of the selection loop in the value model and in the store model
  correspond: the store still begins with the arrays of the input, and the three
  variables hold what the store shows.
\<close>

definition stored_selection ::
  "heap \<Rightarrow> ref \<Rightarrow> ref \<Rightarrow> Selection \<Rightarrow> heap \<times> StoredNode list \<Rightarrow> bool" where
  "stored_selection h0 all_at included_at s st \<longleftrightarrow>
     take (length h0) (fst st) = h0 \<and>
     all_at < length (fst st) \<and> included_at < length (fst st) \<and>
     allNodeNames s = fst st ! all_at \<and>
     includedNodeNames s = fst st ! included_at \<and>
     includedNodes s = map (load_node h0) (snd st)"

section \<open>Validation: auxiliary facts\<close>

subsection \<open>Loops that may throw\<close>

lemma forEach_Inr_iff: "forEach f xs = Inr u \<longleftrightarrow> (\<forall>x \<in> set xs. f x = Inr ())"
  by (induction xs) (auto split: sum.splits)

lemma forEach_InlD: "forEach f xs = Inl e \<Longrightarrow> \<exists>x \<in> set xs. f x = Inl e"
  by (induction xs) (auto split: sum.splits)

lemma first_char_differs: "missing_message a b \<noteq> circular_message c d"
  by (simp add: missing_message_def circular_message_def)

lemma checkExist_Inr_iff:
  "checkExist allNodes names = Inr u \<longleftrightarrow>
     (\<forall>node \<in> set allNodes. \<forall>d \<in> set (dependencies node). d \<in> set names)"
  by (auto simp: checkExist_def forEach_Inr_iff)

lemma checkExist_InlD:
  assumes "checkExist allNodes names = Inl e"
  shows "\<exists>node \<in> set allNodes. \<exists>d \<in> set (dependencies node).
           d \<notin> set names \<and> e = Error (missing_message (name node) d)"
proof -
  from assms obtain node where n: "node \<in> set allNodes"
    and "forEach (\<lambda>dependency. if dependency \<notin> set names
           then Inl (Error (missing_message (name node) dependency))
           else Inr ()) (dependencies node) = Inl e"
    unfolding checkExist_def by (blast dest: forEach_InlD)
  then obtain d where "d \<in> set (dependencies node)"
    and "(if d \<notin> set names then Inl (Error (missing_message (name node) d)) else Inr ()) = Inl e"
    by (blast dest: forEach_InlD)
  with n show ?thesis by (auto split: if_splits)
qed

subsection \<open>The name map keeps the last node of a name\<close>

lemma last_index_step_eq:
  "f k = d \<Longrightarrow> (j < Suc k \<and> f j = d \<and> (\<forall>i. j < i \<and> i < Suc k \<longrightarrow> f i \<noteq> d)) \<longleftrightarrow> j = (k::nat)"
  by (auto simp: less_Suc_eq)

lemma last_index_step_neq:
  "f k \<noteq> d \<Longrightarrow>
     (j < Suc k \<and> f j = d \<and> (\<forall>i. j < i \<and> i < Suc k \<longrightarrow> f i \<noteq> d)) \<longleftrightarrow>
     (j < (k::nat) \<and> f j = d \<and> (\<forall>i. j < i \<and> i < k \<longrightarrow> f i \<noteq> d))"
  by (auto simp: less_Suc_eq)

lemma last_index_fold:
  "fold (\<lambda>i m. m(f i \<mapsto> i)) [0..<k] Map.empty d = Some j \<longleftrightarrow>
     j < k \<and> f j = d \<and> (\<forall>i. j < i \<and> i < k \<longrightarrow> f i \<noteq> d)"
proof (induction k arbitrary: j)
  case 0
  then show ?case by simp
next
  case (Suc k)
  show ?case
  proof (cases "f k = d")
    case True
    then have "fold (\<lambda>i m. m(f i \<mapsto> i)) [0..<Suc k] Map.empty d = Some k"
      by simp
    then show ?thesis
      using last_index_step_eq [of f k d j] True by auto
  next
    case False
    then have "fold (\<lambda>i m. m(f i \<mapsto> i)) [0..<Suc k] Map.empty d
                 = fold (\<lambda>i m. m(f i \<mapsto> i)) [0..<k] Map.empty d"
      by simp
    then show ?thesis
      using last_index_step_neq [of f k d j] False Suc.IH [of j] by simp
  qed
qed

lemma last_index_fold_None:
  "fold (\<lambda>i m. m(f i \<mapsto> i)) [0..<k] Map.empty d = None \<longleftrightarrow> (\<forall>i<k. f i \<noteq> d)"
  by (induction k) (auto simp: less_Suc_eq)

lemma nodeNameMap_Some_iff:
  "nodeNameMap allNodes d = Some j \<longleftrightarrow>
     j < length allNodes \<and> name (allNodes ! j) = d \<and>
     (\<forall>i. j < i \<and> i < length allNodes \<longrightarrow> name (allNodes ! i) \<noteq> d)"
  unfolding nodeNameMap_def by (rule last_index_fold)

lemma nodeNameMap_None_iff:
  "nodeNameMap allNodes d = None \<longleftrightarrow> d \<notin> set (map name allNodes)"
proof -
  have "nodeNameMap allNodes d = None \<longleftrightarrow> (\<forall>i<length allNodes. name (allNodes ! i) \<noteq> d)"
    unfolding nodeNameMap_def by (rule last_index_fold_None)
  also have "\<dots> \<longleftrightarrow> (\<forall>i<length (map name allNodes). map name allNodes ! i \<noteq> d)"
    by simp
  also have "\<dots> \<longleftrightarrow> d \<notin> set (map name allNodes)"
    unfolding in_set_conv_nth by blast
  finally show ?thesis .
qed

lemma nodeNameMap_distinct:
  assumes "distinct (map name allNodes)" and "j < length allNodes"
  shows "nodeNameMap allNodes (name (allNodes ! j)) = Some j"
proof -
  have "name (allNodes ! i) \<noteq> name (allNodes ! j)" if "j < i \<and> i < length allNodes" for i
    using assms that by (metis distinct_conv_nth length_map nth_map less_irrefl)
  with assms(2) show ?thesis
    unfolding nodeNameMap_Some_iff by blast
qed

subsection \<open>The traversal and the cycles of the graph\<close>

lemma successively_trancl:
  "successively (\<lambda>a b. (a, b) \<in> R) (x # xs @ [y]) \<Longrightarrow> (x, y) \<in> R\<^sup>+"
proof (induction xs arbitrary: x)
  case Nil
  then show ?case by simp
next
  case (Cons z zs)
  then have "(x, z) \<in> R" and "(z, y) \<in> R\<^sup>+" by simp_all
  then show ?case by (rule trancl_into_trancl2)
qed

lemma chain_revisit_cycle:
  assumes "node \<in> set chain" and "successively (\<lambda>a b. (a, b) \<in> R) (chain @ [node])"
  shows "(node, node) \<in> R\<^sup>+"
proof -
  from assms(1) obtain as bs where "chain = as @ node # bs"
    by (auto simp: in_set_conv_decomp)
  with assms(2) have "successively (\<lambda>a b. (a, b) \<in> R) (as @ (node # bs @ [node]))"
    by simp
  then have "successively (\<lambda>a b. (a, b) \<in> R) (node # bs @ [node])"
    unfolding successively_append_iff by blast
  then show ?thesis by (rule successively_trancl)
qed

lemma no_cycle_reachable:
  "checkCircular allNodes x dependents = Inr () \<Longrightarrow> x = Some i \<Longrightarrow>
     (i, c) \<in> (resolved_edges allNodes)\<^sup>* \<Longrightarrow> (c, c) \<notin> (resolved_edges allNodes)\<^sup>+"
proof (induction allNodes x dependents arbitrary: i c rule: checkCircular.induct)
  case (1 allNodes dependents)
  then show ?case by simp
next
  case (2 allNodes node dependents)
  let ?E = "resolved_edges allNodes"
  from "2.prems" have i: "i = node" by simp
  from "2.prems" have fresh: "node \<notin> set dependents"
    by (auto split: if_splits)
  from "2.prems" fresh have inside: "node < length allNodes"
    by (auto split: if_splits)
  from "2.prems" fresh inside have all_ok:
    "\<forall>d \<in> set (dependencies (allNodes ! node)).
       checkCircular allNodes (nodeNameMap allNodes d) (dependents @ [node]) = Inr ()"
    by (simp add: forEach_Inr_iff)
  show ?case
  proof
    assume cyc: "(c, c) \<in> ?E\<^sup>+"
    from "2.prems"(3) cyc i have "(node, c) \<in> ?E\<^sup>+"
      by (metis rtrancl_trancl_trancl)
    then obtain j where step: "(node, j) \<in> ?E" and rest: "(j, c) \<in> ?E\<^sup>*"
      by (blast dest: tranclD)
    from step obtain d where d: "d \<in> set (dependencies (allNodes ! node))"
      and look: "nodeNameMap allNodes d = Some j"
      unfolding resolved_edges_def by blast
    from all_ok d
    have "checkCircular allNodes (nodeNameMap allNodes d) (dependents @ [node]) = Inr ()"
      by blast
    from "2.IH" [OF fresh _ d this look rest] inside cyc show False by simp
  qed
qed

lemma resolved_when_exist:
  assumes "dependencies_exist allNodes" and "i < length allNodes"
    and "d \<in> set (dependencies (allNodes ! i))"
  shows "\<exists>j. nodeNameMap allNodes d = Some j \<and> j < length allNodes \<and>
             (i, j) \<in> resolved_edges allNodes"
proof -
  from assms have "d \<in> set (map name allNodes)"
    unfolding dependencies_exist_def using nth_mem by blast
  then have "nodeNameMap allNodes d \<noteq> None"
    by (simp only: nodeNameMap_None_iff not_not)
  then obtain j where j: "nodeNameMap allNodes d = Some j" by blast
  then have "j < length allNodes" by (simp add: nodeNameMap_Some_iff)
  moreover from j assms(2,3) have "(i, j) \<in> resolved_edges allNodes"
    unfolding resolved_edges_def by blast
  ultimately show ?thesis using j by blast
qed

lemma cycle_error_chain:
  "checkCircular allNodes x dependents = Inl e \<Longrightarrow> x = Some i \<Longrightarrow> i < length allNodes \<Longrightarrow>
   dependencies_exist allNodes \<Longrightarrow>
   successively (\<lambda>a b. (a, b) \<in> resolved_edges allNodes) (dependents @ [i]) \<Longrightarrow>
   \<exists>chain node ys.
      e = Error (circular_message (map (\<lambda>d. name (allNodes ! d)) chain)
                   (name (allNodes ! node))) \<and>
      node \<in> set chain \<and>
      successively (\<lambda>a b. (a, b) \<in> resolved_edges allNodes) (chain @ [node]) \<and>
      chain @ [node] = dependents @ [i] @ ys"
proof (induction allNodes x dependents arbitrary: i rule: checkCircular.induct)
  case (1 allNodes dependents)
  then show ?case by simp
next
  case (2 allNodes node dependents)
  let ?E = "\<lambda>a b. (a, b) \<in> resolved_edges allNodes"
  from "2.prems" have i: "i = node" and inside: "node < length allNodes" by simp_all
  show ?case
  proof (cases "node \<in> set dependents")
    case True
    with "2.prems"(1)
    have "e = Error (circular_message (map (\<lambda>d. name (allNodes ! d)) dependents)
                       (name (allNodes ! node)))"
      by simp
    moreover have "dependents @ [node] = dependents @ [i] @ []" using i by simp
    ultimately show ?thesis
      using True "2.prems"(5) i by blast
  next
    case False
    with inside "2.prems"(1) obtain d where d: "d \<in> set (dependencies (allNodes ! node))"
      and err: "checkCircular allNodes (nodeNameMap allNodes d) (dependents @ [node]) = Inl e"
      by (auto dest: forEach_InlD)
    from resolved_when_exist [OF "2.prems"(4) inside d]
    obtain j where look: "nodeNameMap allNodes d = Some j" and j: "j < length allNodes"
      and edge: "(node, j) \<in> resolved_edges allNodes"
      by blast
    have path: "successively ?E ((dependents @ [node]) @ [j])"
      using "2.prems"(5) edge i by (simp add: successively_append_iff)
    from "2.IH" [OF False _ d err look j "2.prems"(4) path] inside
    obtain chain node' ys where
      "e = Error (circular_message (map (\<lambda>d. name (allNodes ! d)) chain)
                    (name (allNodes ! node')))"
      "node' \<in> set chain" "successively ?E (chain @ [node'])"
      "chain @ [node'] = (dependents @ [node]) @ [j] @ ys"
      by auto
    moreover from this(4) have "chain @ [node'] = dependents @ [i] @ (j # ys)"
      using i by simp
    ultimately show ?thesis by blast
  qed
qed

declare checkCircular.simps [simp del]

lemma checkExist_ok_iff:
  "checkExist allNodes (map name allNodes) = Inr () \<longleftrightarrow> dependencies_exist allNodes"
  unfolding dependencies_exist_def by (rule checkExist_Inr_iff)

lemma validate_when_exist:
  "dependencies_exist allNodes \<Longrightarrow>
     validate allNodes =
       forEach (\<lambda>node. checkCircular allNodes (Some node) []) [0..<length allNodes]"
  unfolding validate_def using checkExist_ok_iff [of allNodes] by simp

lemma validate_when_missing:
  "\<not> dependencies_exist allNodes \<Longrightarrow>
     validate allNodes = checkExist allNodes (map name allNodes)"
  unfolding validate_def using checkExist_ok_iff [of allNodes]
  by (cases "checkExist allNodes (map name allNodes)") auto

lemma validate_error_chain:
  assumes "dependencies_exist allNodes" and "validate allNodes = Inl e"
  shows "\<exists>chain node.
      e = Error (circular_message (map (\<lambda>d. name (allNodes ! d)) chain)
                   (name (allNodes ! node))) \<and>
      node \<in> set chain \<and>
      successively (\<lambda>a b. (a, b) \<in> resolved_edges allNodes) (chain @ [node])"
proof -
  from assms obtain i where "i < length allNodes"
    and "checkCircular allNodes (Some i) [] = Inl e"
    by (auto simp: validate_when_exist dest: forEach_InlD)
  from cycle_error_chain [OF this(2) refl this(1) assms(1)]
  show ?thesis by auto
qed

lemma validate_finds_cycle:
  assumes "dependencies_exist allNodes" and "(c, c) \<in> (resolved_edges allNodes)\<^sup>+"
  shows "\<exists>e. validate allNodes = Inl e"
proof -
  from assms(2) obtain j where "(c, j) \<in> resolved_edges allNodes"
    by (blast dest: tranclD)
  then have c: "c < length allNodes"
    unfolding resolved_edges_def by simp
  have "checkCircular allNodes (Some c) [] \<noteq> Inr ()"
    using no_cycle_reachable [of allNodes "Some c" "[]" c c] assms(2) by auto
  with c have "\<not> (\<forall>i \<in> set [0..<length allNodes]. checkCircular allNodes (Some i) [] = Inr ())"
    by auto
  then have "validate allNodes \<noteq> Inr ()"
    using assms(1) by (simp add: validate_when_exist forEach_Inr_iff)
  then show ?thesis
    by (cases "validate allNodes") auto
qed

lemma resolved_edge_in_graph:
  assumes "(i, j) \<in> resolved_edges allNodes"
  shows "(name (allNodes ! i), name (allNodes ! j)) \<in> dependency_graph allNodes"
proof -
  from assms obtain d where i: "i < length allNodes"
    and d: "d \<in> set (dependencies (allNodes ! i))"
    and look: "nodeNameMap allNodes d = Some j"
    unfolding resolved_edges_def by blast
  from look have "name (allNodes ! j) = d" by (simp add: nodeNameMap_Some_iff)
  with i d show ?thesis
    unfolding dependency_graph_def using nth_mem by blast
qed

lemma trancl_image:
  assumes "\<And>a b. (a, b) \<in> R \<Longrightarrow> (f a, f b) \<in> S" and "(x, y) \<in> R\<^sup>+"
  shows "(f x, f y) \<in> S\<^sup>+"
  using assms(2)
proof (induction rule: trancl.induct)
  case (r_into_trancl a b)
  then show ?case using assms(1) by blast
next
  case (trancl_into_trancl a b c)
  then show ?case using assms(1) by (meson trancl.trancl_into_trancl)
qed

lemma graph_edge_resolved:
  assumes "dependencies_exist allNodes" and "distinct (map name allNodes)"
    and "(a, b) \<in> dependency_graph allNodes"
  shows "(the (nodeNameMap allNodes a), the (nodeNameMap allNodes b)) \<in> resolved_edges allNodes"
proof -
  from assms(3) obtain node where "node \<in> set allNodes" and a: "name node = a"
    and b: "b \<in> set (dependencies node)"
    unfolding dependency_graph_def by blast
  then obtain i where i: "i < length allNodes" and node: "allNodes ! i = node"
    by (auto simp: in_set_conv_nth)
  from nodeNameMap_distinct [OF assms(2) i] node a
  have la: "nodeNameMap allNodes a = Some i" by simp
  from resolved_when_exist [OF assms(1) i] b node
  obtain j where "nodeNameMap allNodes b = Some j" and "(i, j) \<in> resolved_edges allNodes"
    by blast
  with la show ?thesis by simp
qed

lemma graph_cycle_resolved:
  assumes "dependencies_exist allNodes" and "distinct (map name allNodes)"
    and "(a, a) \<in> (dependency_graph allNodes)\<^sup>+"
  shows "\<exists>c. (c, c) \<in> (resolved_edges allNodes)\<^sup>+"
  using trancl_image [of "dependency_graph allNodes" "\<lambda>a. the (nodeNameMap allNodes a)"
      "resolved_edges allNodes" a a] graph_edge_resolved [OF assms(1,2)] assms(3)
  by blast

lemma chain_names_in_graph:
  assumes "successively (\<lambda>a b. (a, b) \<in> resolved_edges allNodes) xs"
  shows "successively (\<lambda>a b. (a, b) \<in> dependency_graph allNodes)
           (map (\<lambda>d. name (allNodes ! d)) xs)"
  unfolding successively_map
  using assms by (rule successively_mono) (simp add: resolved_edge_in_graph)

lemma build_Inl_iff:
  "build mp ac cg rc = Inl e \<longleftrightarrow>
     validate (translate (ac (CompiledGraph.projectConfig cg)) cg rc) = Inl e"
  unfolding build_def Let_def by (simp split: sum.splits)

lemma build_Inr_iff:
  "build mp ac cg rc = Inr g \<longleftrightarrow>
     validate (translate (ac (CompiledGraph.projectConfig cg)) cg rc) = Inr () \<and>
     g = \<lparr> projectConfig = CompiledGraph.projectConfig cg, runConfig = rc,
           nodes = prune mp (select mp (translate (ac (CompiledGraph.projectConfig cg)) cg rc) rc) \<rparr>"
  unfolding build_def Let_def by (auto split: sum.splits)

lemma validate_ok_iff:
  "validate allNodes = Inr () \<longleftrightarrow>
     dependencies_exist allNodes \<and> (\<forall>c. (c, c) \<notin> (resolved_edges allNodes)\<^sup>+)"
proof (cases "dependencies_exist allNodes")
  case True
  show ?thesis
  proof
    assume ok: "validate allNodes = Inr ()"
    have "(c, c) \<notin> (resolved_edges allNodes)\<^sup>+" for c
      using validate_finds_cycle [OF True, of c] ok by auto
    with True show "dependencies_exist allNodes \<and> (\<forall>c. (c, c) \<notin> (resolved_edges allNodes)\<^sup>+)"
      by blast
  next
    assume acyc: "dependencies_exist allNodes \<and> (\<forall>c. (c, c) \<notin> (resolved_edges allNodes)\<^sup>+)"
    show "validate allNodes = Inr ()"
    proof (cases "validate allNodes")
      case (Inl e)
      from validate_error_chain [OF True Inl] obtain chain node where
        "node \<in> set chain"
        "successively (\<lambda>a b. (a, b) \<in> resolved_edges allNodes) (chain @ [node])"
        by blast
      then have "(node, node) \<in> (resolved_edges allNodes)\<^sup>+"
        by (rule chain_revisit_cycle)
      with acyc show ?thesis by blast
    next
      case (Inr u)
      then show ?thesis by simp
    qed
  qed
next
  case False
  then have "checkExist allNodes (map name allNodes) \<noteq> Inr ()"
    by (simp add: checkExist_ok_iff)
  with False show ?thesis
    by (simp add: validate_when_missing)
qed

section \<open>The first failure of validation\<close>

text \<open>
  \<^verbatim>\<open>forEach\<close> stops at the first element whose call throws; the elements before it
  returned. For the existence check this names the node and the dependency of the error,
  for the traversal the path that leads to the call that throws.
\<close>

lemma forEach_Inl_first:
  "forEach f xs = Inl e \<Longrightarrow>
     \<exists>k < length xs. f (xs ! k) = Inl e \<and> (\<forall>k' < k. f (xs ! k') = Inr ())"
proof (induction xs)
  case Nil
  then show ?case by simp
next
  case (Cons x xs)
  show ?case
  proof (cases "f x")
    case (Inl e')
    with Cons.prems have "f ((x # xs) ! 0) = Inl e" by simp
    then show ?thesis by force
  next
    case (Inr u)
    with Cons.prems have "forEach f xs = Inl e" by simp
    from Cons.IH [OF this] obtain k where k: "k < length xs" "f (xs ! k) = Inl e"
      and before: "\<forall>k' < k. f (xs ! k') = Inr ()"
      by blast
    have "f ((x # xs) ! k') = Inr ()" if "k' < Suc k" for k'
      using that before Inr by (cases k') auto
    with k have "Suc k < length (x # xs) \<and> f ((x # xs) ! Suc k) = Inl e \<and>
        (\<forall>k' < Suc k. f ((x # xs) ! k') = Inr ())"
      by simp
    then show ?thesis by blast
  qed
qed

lemma validate_first_missing:
  assumes "\<not> dependencies_exist allNodes"
  shows "\<exists>i < length allNodes. \<exists>q < length (dependencies (allNodes ! i)).
           (\<forall>i' < i. \<forall>d \<in> set (dependencies (allNodes ! i')). d \<in> set (map name allNodes)) \<and>
           (\<forall>q' < q. dependencies (allNodes ! i) ! q' \<in> set (map name allNodes)) \<and>
           dependencies (allNodes ! i) ! q \<notin> set (map name allNodes) \<and>
           validate allNodes =
             Inl (Error (missing_message (name (allNodes ! i)) (dependencies (allNodes ! i) ! q)))"
proof -
  let ?names = "map name allNodes"
  let ?inner = "\<lambda>node. forEach (\<lambda>dependency.
         if dependency \<notin> set ?names
         then Inl (Error (missing_message (name node) dependency))
         else Inr ()) (dependencies node)"
  from assms have "checkExist allNodes ?names \<noteq> Inr ()"
    by (simp add: checkExist_ok_iff)
  then obtain e where e: "checkExist allNodes ?names = Inl e"
    by (cases "checkExist allNodes ?names") auto
  then have v: "validate allNodes = Inl e"
    using assms by (simp add: validate_when_missing)
  from e have "forEach ?inner allNodes = Inl e"
    unfolding checkExist_def .
  from forEach_Inl_first [OF this] obtain i where i: "i < length allNodes"
    and at: "?inner (allNodes ! i) = Inl e"
    and before: "\<forall>i' < i. ?inner (allNodes ! i') = Inr ()"
    by blast
  from forEach_Inl_first [OF at] obtain q where q: "q < length (dependencies (allNodes ! i))"
    and atq: "(if dependencies (allNodes ! i) ! q \<notin> set ?names
               then Inl (Error (missing_message (name (allNodes ! i))
                                  (dependencies (allNodes ! i) ! q)))
               else Inr ()) = Inl e"
    and beforeq: "\<forall>q' < q. (if dependencies (allNodes ! i) ! q' \<notin> set ?names
               then Inl (Error (missing_message (name (allNodes ! i))
                                  (dependencies (allNodes ! i) ! q')))
               else Inr ()) = Inr ()"
    by blast
  from atq have miss: "dependencies (allNodes ! i) ! q \<notin> set ?names"
    and msg: "e = Error (missing_message (name (allNodes ! i)) (dependencies (allNodes ! i) ! q))"
    by (auto split: if_splits)
  from beforeq have ok_q: "\<forall>q' < q. dependencies (allNodes ! i) ! q' \<in> set ?names"
    by (auto split: if_splits)
  have ok_i: "\<forall>i' < i. \<forall>d \<in> set (dependencies (allNodes ! i')). d \<in> set ?names"
  proof (intro allI impI ballI)
    fix i' d assume "i' < i" and d: "d \<in> set (dependencies (allNodes ! i'))"
    with before have "?inner (allNodes ! i') = Inr ()" by blast
    then have "\<forall>x \<in> set (dependencies (allNodes ! i')).
                 (if x \<notin> set ?names
                  then Inl (Error (missing_message (name (allNodes ! i')) x))
                  else Inr ()) = Inr ()"
      unfolding forEach_Inr_iff .
    with d show "d \<in> set ?names" by (auto split: if_splits)
  qed
  from i q ok_i ok_q miss v msg show ?thesis by blast
qed

lemma checkCircular_passes:
  "checkCircular allNodes x dependents = Inr () \<Longrightarrow> x = Some i \<Longrightarrow> passes allNodes dependents i"
proof (induction allNodes x dependents arbitrary: i rule: checkCircular.induct)
  case (1 allNodes dependents)
  then show ?case by simp
next
  case (2 allNodes node dependents)
  let ?E = "resolved_edges allNodes"
  from "2.prems" have i: "i = node" by simp
  from "2.prems" have fresh: "node \<notin> set dependents"
    by (auto simp: checkCircular.simps split: if_splits)
  from "2.prems" fresh have inside: "node < length allNodes"
    by (auto simp: checkCircular.simps split: if_splits)
  from "2.prems" fresh inside have all_ok:
    "\<forall>d \<in> set (dependencies (allNodes ! node)).
       checkCircular allNodes (nodeNameMap allNodes d) (dependents @ [node]) = Inr ()"
    by (simp add: checkCircular.simps forEach_Inr_iff)
  have below: "passes allNodes (dependents @ [node]) j" if "(node, j) \<in> ?E" for j
  proof -
    from that obtain d where d: "d \<in> set (dependencies (allNodes ! node))"
      and look: "nodeNameMap allNodes d = Some j"
      unfolding resolved_edges_def by blast
    from all_ok d
    have "checkCircular allNodes (nodeNameMap allNodes d) (dependents @ [node]) = Inr ()"
      by blast
    from "2.IH" [OF fresh _ d this look] inside show ?thesis by simp
  qed
  have "c \<notin> set dependents \<and> (c, c) \<notin> ?E\<^sup>+" if "(node, c) \<in> ?E\<^sup>*" for c
    using that
  proof (cases rule: converse_rtranclE)
    case base
    have "(node, node) \<notin> ?E\<^sup>+"
    proof
      assume "(node, node) \<in> ?E\<^sup>+"
      then obtain j where "(node, j) \<in> ?E" and "(j, node) \<in> ?E\<^sup>*"
        by (blast dest: tranclD)
      with below show False unfolding passes_def by auto
    qed
    with base fresh show ?thesis by simp
  next
    case (step j)
    with below have "c \<notin> set (dependents @ [node]) \<and> (c, c) \<notin> ?E\<^sup>+"
      unfolding passes_def by blast
    then show ?thesis by simp
  qed
  then show ?case unfolding passes_def i by blast
qed

lemma thrown_chain:
  "checkCircular allNodes x dependents = Inl e \<Longrightarrow> x = Some i \<Longrightarrow> i < length allNodes \<Longrightarrow>
   dependencies_exist allNodes \<Longrightarrow> distinct dependents \<Longrightarrow>
   successively (\<lambda>a b. (a, b) \<in> resolved_edges allNodes) (dependents @ [i]) \<Longrightarrow>
   \<exists>ys. e = Error (circular_message
                   (map (\<lambda>d. name (allNodes ! d)) (butlast (dependents @ i # ys)))
                   (name (allNodes ! last (dependents @ i # ys)))) \<and>
        distinct (butlast (dependents @ i # ys)) \<and>
        last (dependents @ i # ys) \<in> set (butlast (dependents @ i # ys)) \<and>
        successively (\<lambda>a b. (a, b) \<in> resolved_edges allNodes) (dependents @ i # ys) \<and>
        (\<forall>k. length dependents \<le> k \<and> Suc k < length (dependents @ i # ys) \<longrightarrow>
           descends allNodes (dependents @ i # ys) k)"
proof (induction allNodes x dependents arbitrary: i rule: checkCircular.induct)
  case (1 allNodes dependents)
  then show ?case by simp
next
  case (2 allNodes node dependents)
  let ?E = "\<lambda>a b. (a, b) \<in> resolved_edges allNodes"
  let ?deps = "dependencies (allNodes ! node)"
  from "2.prems" have i: "i = node" and inside: "node < length allNodes" by simp_all
  show ?case
  proof (cases "node \<in> set dependents")
    case True
    with "2.prems"(1)
    have "e = Error (circular_message (map (\<lambda>d. name (allNodes ! d)) dependents)
                       (name (allNodes ! node)))"
      by (simp add: checkCircular.simps)
    with True "2.prems"(5,6) i
    have "e = Error (circular_message
                   (map (\<lambda>d. name (allNodes ! d)) (butlast (dependents @ i # [])))
                   (name (allNodes ! last (dependents @ i # [])))) \<and>
        distinct (butlast (dependents @ i # [])) \<and>
        last (dependents @ i # []) \<in> set (butlast (dependents @ i # [])) \<and>
        successively ?E (dependents @ i # []) \<and>
        (\<forall>k. length dependents \<le> k \<and> Suc k < length (dependents @ i # []) \<longrightarrow>
           descends allNodes (dependents @ i # []) k)"
      by (simp del: all_simps) arith
    then show ?thesis by blast
  next
    case False
    with inside "2.prems"(1)
    have "forEach (\<lambda>d. checkCircular allNodes (nodeNameMap allNodes d) (dependents @ [node]))
            ?deps = Inl e"
      by (simp add: checkCircular.simps)
    from forEach_Inl_first [OF this] obtain q where q: "q < length ?deps"
      and err: "checkCircular allNodes (nodeNameMap allNodes (?deps ! q)) (dependents @ [node])
                  = Inl e"
      and before: "\<forall>q' < q. checkCircular allNodes (nodeNameMap allNodes (?deps ! q'))
                      (dependents @ [node]) = Inr ()"
      by blast
    from q have dq: "?deps ! q \<in> set ?deps" by simp
    from resolved_when_exist [OF "2.prems"(4) inside dq]
    obtain j where look: "nodeNameMap allNodes (?deps ! q) = Some j" and j: "j < length allNodes"
      and edge: "(node, j) \<in> resolved_edges allNodes"
      by blast
    have path: "successively ?E ((dependents @ [node]) @ [j])"
      using "2.prems"(6) edge i by (simp add: successively_append_iff)
    have dist: "distinct (dependents @ [node])"
      using "2.prems"(5) False by simp
    from "2.IH" [OF False _ dq err look j "2.prems"(4) dist path] inside
    obtain ys where
      e: "e = Error (circular_message
                   (map (\<lambda>d. name (allNodes ! d)) (butlast ((dependents @ [node]) @ j # ys)))
                   (name (allNodes ! last ((dependents @ [node]) @ j # ys))))"
      and d: "distinct (butlast ((dependents @ [node]) @ j # ys))"
      and l: "last ((dependents @ [node]) @ j # ys) \<in> set (butlast ((dependents @ [node]) @ j # ys))"
      and s: "successively ?E ((dependents @ [node]) @ j # ys)"
      and below: "\<forall>k. length (dependents @ [node]) \<le> k \<and>
                     Suc k < length ((dependents @ [node]) @ j # ys) \<longrightarrow>
                     descends allNodes ((dependents @ [node]) @ j # ys) k"
      by auto
    let ?p = "dependents @ i # (j # ys)"
    have p: "(dependents @ [node]) @ j # ys = ?p" using i by simp
    have here: "descends allNodes ?p (length dependents)"
    proof -
      have at: "?p ! length dependents = node" and nxt: "?p ! Suc (length dependents) = j"
        and tk: "take (Suc (length dependents)) ?p = dependents @ [node]"
        using i by (simp_all add: nth_append)
      have "\<exists>j'. nodeNameMap allNodes (?deps ! q') = Some j' \<and>
                  passes allNodes (dependents @ [node]) j'" if "q' < q" for q'
      proof -
        from that before
        have ok: "checkCircular allNodes (nodeNameMap allNodes (?deps ! q')) (dependents @ [node])
                    = Inr ()"
          by blast
        then obtain j' where j': "nodeNameMap allNodes (?deps ! q') = Some j'"
          by (cases "nodeNameMap allNodes (?deps ! q')") (auto simp: checkCircular.simps)
        from checkCircular_passes [OF ok j'] j' show ?thesis by blast
      qed
      with q look show ?thesis
        unfolding descends_def at nxt tk by blast
    qed
    have steps: "descends allNodes ?p k"
      if "length dependents \<le> k \<and> Suc k < length ?p" for k
    proof (cases "k = length dependents")
      case True
      with here show ?thesis by simp
    next
      case False
      with that have "length (dependents @ [node]) \<le> k \<and>
          Suc k < length ((dependents @ [node]) @ j # ys)"
        by simp
      with below show ?thesis unfolding p by blast
    qed
    from e d l s steps show ?thesis unfolding p by blast
  qed
qed

lemma map_butlast_last:
  "p \<noteq> [] \<Longrightarrow> map f p = map f (butlast p) @ [f (last p)]"
  by (cases p rule: rev_cases) simp_all

lemma join_concat:
  "xs \<noteq> [] \<Longrightarrow> join sep xs @ sep @ y = concat (map (\<lambda>x. x @ sep) xs) @ y"
  by (induction sep xs rule: join.induct) simp_all

lemma circular_message_text:
  assumes "chain \<noteq> []"
  shows "circular_message (map f chain) node_name =
     ''Circular dependency detected in chain: ['' @
       concat (map (\<lambda>i. f i @ '' > '') chain) @ node_name @ '']''"
proof -
  from assms have "map f chain \<noteq> []" by simp
  from join_concat [OF this, of "'' > ''" "node_name @ '']''"]
  show ?thesis
    unfolding circular_message_def by (simp add: comp_def)
qed

lemma validate_thrown_path:
  assumes exist: "dependencies_exist allNodes" and err: "validate allNodes = Inl e"
  shows "\<exists>p. thrown_path allNodes p \<and>
             successively (\<lambda>a b. (a, b) \<in> resolved_edges allNodes) p \<and>
             e = Error (circular_message (map (\<lambda>d. name (allNodes ! d)) (butlast p))
                          (name (allNodes ! last p)))"
proof -
  from err have "forEach (\<lambda>node. checkCircular allNodes (Some node) []) [0..<length allNodes]
      = Inl e"
    unfolding validate_when_exist [OF exist] .
  from forEach_Inl_first [OF this] obtain r where r: "r < length allNodes"
    and thrown: "checkCircular allNodes (Some r) [] = Inl e"
    and before: "\<forall>r' < r. checkCircular allNodes (Some r') [] = Inr ()"
    by auto
  from thrown_chain [OF thrown refl r exist] obtain ys where
    e: "e = Error (circular_message (map (\<lambda>d. name (allNodes ! d)) (butlast (r # ys)))
                     (name (allNodes ! last (r # ys))))"
    and d: "distinct (butlast (r # ys))"
    and l: "last (r # ys) \<in> set (butlast (r # ys))"
    and s: "successively (\<lambda>a b. (a, b) \<in> resolved_edges allNodes) (r # ys)"
    and steps: "\<forall>k. Suc k < length (r # ys) \<longrightarrow> descends allNodes (r # ys) k"
    by auto
  have "passes allNodes [] r'" if "r' < r" for r'
    using that before checkCircular_passes [of allNodes "Some r'" "[]" r'] by blast
  with r d l steps have "thrown_path allNodes (r # ys)"
    unfolding thrown_path_def by simp
  with s e show ?thesis by blast
qed

text \<open>
  A thrown path follows edges of the traversal's graph and ends on a cycle, so no call on
  one of its nodes passes. This makes the path unique: the root and, at each node, the
  dependency to descend into are the first that do not pass.
\<close>

lemma descends_edge:
  assumes "descends allNodes p k" and "p ! k < length allNodes"
  shows "(p ! k, p ! Suc k) \<in> resolved_edges allNodes"
proof -
  from assms(1) obtain q where "q < length (dependencies (allNodes ! (p ! k)))"
    and "nodeNameMap allNodes (dependencies (allNodes ! (p ! k)) ! q) = Some (p ! Suc k)"
    unfolding descends_def by blast
  with assms(2) show ?thesis
    unfolding resolved_edges_def using nth_mem by blast
qed

lemma thrown_path_inside:
  assumes "thrown_path allNodes p" and "k < length p"
  shows "p ! k < length allNodes"
  using assms(2)
proof (induction k)
  case 0
  with assms(1) show ?case
    unfolding thrown_path_def by (cases p) simp_all
next
  case (Suc k)
  from Suc.prems assms(1) have "descends allNodes p k"
    unfolding thrown_path_def by blast
  then obtain d where "nodeNameMap allNodes d = Some (p ! Suc k)"
    unfolding descends_def by blast
  then show ?case by (simp add: nodeNameMap_Some_iff)
qed

lemma thrown_path_edges:
  assumes "thrown_path allNodes p" and "Suc k < length p"
  shows "(p ! k, p ! Suc k) \<in> resolved_edges allNodes"
proof -
  from assms have "descends allNodes p k"
    unfolding thrown_path_def by blast
  moreover from assms have "p ! k < length allNodes"
    using thrown_path_inside [of allNodes p k] by simp
  ultimately show ?thesis by (rule descends_edge)
qed

lemma thrown_path_reach:
  assumes "thrown_path allNodes p" and "k + n < length p"
  shows "(p ! k, p ! (k + n)) \<in> (resolved_edges allNodes)\<^sup>*"
  using assms(2)
proof (induction n)
  case 0
  show ?case by simp
next
  case (Suc n)
  then have "(p ! k, p ! (k + n)) \<in> (resolved_edges allNodes)\<^sup>*" by simp
  moreover from Suc.prems have "(p ! (k + n), p ! Suc (k + n)) \<in> resolved_edges allNodes"
    using thrown_path_edges [OF assms(1), of "k + n"] by simp
  ultimately show ?case by simp
qed

lemma thrown_path_cycle:
  assumes "thrown_path allNodes p"
  shows "(last p, last p) \<in> (resolved_edges allNodes)\<^sup>+"
proof -
  from assms have ne: "p \<noteq> []" and mem: "last p \<in> set (butlast p)"
    unfolding thrown_path_def by simp_all
  from mem obtain m where m: "m < length (butlast p)" and at: "butlast p ! m = last p"
    by (auto simp: in_set_conv_nth)
  from m have m': "Suc m < length p" by simp
  from m at have pm: "p ! m = last p" by (simp add: nth_butlast)
  have lp: "last p = p ! (length p - 1)" using ne by (simp add: last_conv_nth)
  from m' have "Suc m + (length p - 1 - Suc m) = length p - 1" by simp
  with thrown_path_reach [OF assms, of "Suc m" "length p - 1 - Suc m"] m'
  have "(p ! Suc m, p ! (length p - 1)) \<in> (resolved_edges allNodes)\<^sup>*" by simp
  with thrown_path_edges [OF assms m'] have "(p ! m, p ! (length p - 1)) \<in> (resolved_edges allNodes)\<^sup>+"
    by simp
  with pm lp show ?thesis by simp
qed

lemma thrown_path_fails:
  assumes "thrown_path allNodes p" and "k < length p"
  shows "\<not> passes allNodes chain (p ! k)"
proof -
  from assms(2) have "k + (length p - 1 - k) = length p - 1" by simp
  with thrown_path_reach [OF assms(1), of k "length p - 1 - k"] assms(2)
  have "(p ! k, p ! (length p - 1)) \<in> (resolved_edges allNodes)\<^sup>*" by simp
  moreover from assms(2) have "last p = p ! (length p - 1)"
    by (cases p rule: rev_cases) (simp_all add: nth_append)
  ultimately have "(p ! k, last p) \<in> (resolved_edges allNodes)\<^sup>*" by simp
  with thrown_path_cycle [OF assms(1)] show ?thesis
    unfolding passes_def by blast
qed

lemma thrown_path_prefix:
  assumes p: "thrown_path allNodes p" and p': "thrown_path allNodes p'"
    and "n \<le> length p" and "n \<le> length p'"
  shows "take n p = take n p'"
  using assms(3,4)
proof (induction n)
  case 0
  show ?case by simp
next
  case (Suc n)
  then have eq: "take n p = take n p'" by simp
  from Suc.prems have n: "n < length p" "n < length p'" by simp_all
  have "p ! n = p' ! n"
  proof (cases n)
    case 0
    have "\<not> hd p < hd p'"
    proof
      assume "hd p < hd p'"
      with p' have "passes allNodes [] (hd p)" unfolding thrown_path_def by blast
      moreover from p n 0 have "hd p = p ! 0" by (simp add: hd_conv_nth)
      ultimately show False using thrown_path_fails [OF p, of 0 "[]"] n 0 by simp
    qed
    moreover have "\<not> hd p' < hd p"
    proof
      assume "hd p' < hd p"
      with p have "passes allNodes [] (hd p')" unfolding thrown_path_def by blast
      moreover from p' n 0 have "hd p' = p' ! 0" by (simp add: hd_conv_nth)
      ultimately show False using thrown_path_fails [OF p', of 0 "[]"] n 0 by simp
    qed
    ultimately have "hd p = hd p'" by simp
    with n 0 show ?thesis by (simp add: hd_conv_nth)
  next
    case (Suc k)
    with n have k: "Suc k < length p" "Suc k < length p'" by simp_all
    from eq Suc have tk: "take (Suc k) p = take (Suc k) p'" by simp
    then have same: "p ! k = p' ! k"
      using k by (metis lessI nth_take)
    let ?deps = "dependencies (allNodes ! (p ! k))"
    from p k have "descends allNodes p k" unfolding thrown_path_def by blast
    then obtain q where q: "q < length ?deps"
      and look: "nodeNameMap allNodes (?deps ! q) = Some (p ! Suc k)"
      and before: "\<forall>q' < q. \<exists>j. nodeNameMap allNodes (?deps ! q') = Some j \<and>
                      passes allNodes (take (Suc k) p) j"
      unfolding descends_def by blast
    from p' k have "descends allNodes p' k" unfolding thrown_path_def by blast
    then obtain q' where q': "q' < length ?deps"
      and look': "nodeNameMap allNodes (?deps ! q') = Some (p' ! Suc k)"
      and before': "\<forall>q'' < q'. \<exists>j. nodeNameMap allNodes (?deps ! q'') = Some j \<and>
                      passes allNodes (take (Suc k) p') j"
      unfolding descends_def same [symmetric] by blast
    have "\<not> q < q'"
    proof
      assume "q < q'"
      with before' look have "passes allNodes (take (Suc k) p') (p ! Suc k)" by auto
      with thrown_path_fails [OF p k(1)] show False by blast
    qed
    moreover have "\<not> q' < q"
    proof
      assume "q' < q"
      with before look' have "passes allNodes (take (Suc k) p) (p' ! Suc k)" by auto
      with thrown_path_fails [OF p' k(2)] show False by blast
    qed
    ultimately have "q = q'" by simp
    with look look' Suc show ?thesis by simp
  qed
  with eq n show ?case by (simp add: take_Suc_conv_app_nth)
qed

lemma thrown_path_not_longer:
  assumes p: "thrown_path allNodes p" and p': "thrown_path allNodes p'"
  shows "\<not> length p < length p'"
proof
  assume less: "length p < length p'"
  from thrown_path_prefix [OF p p', of "length p"] less
  have eq: "p = take (length p) p'" by simp
  from p have ne: "p \<noteq> []" and mem: "last p \<in> set (butlast p)"
    unfolding thrown_path_def by simp_all
  from p' have dist: "distinct (butlast p')" unfolding thrown_path_def by simp
  from less have "take (length p) (butlast p') = take (length p) p'"
    by (simp add: take_butlast)
  with eq have "p = take (length p) (butlast p')" by simp
  with dist have "distinct p" by (metis distinct_take)
  moreover from ne have "p = butlast p @ [last p]" by simp
  ultimately have "last p \<notin> set (butlast p)"
    by (metis distinct_append distinct.simps(2) disjoint_iff list.set_intros(1) distinct_butlast not_distinct_conv_prefix)
  with mem show False by simp
qed

lemma thrown_path_unique:
  assumes "thrown_path allNodes p" and "thrown_path allNodes p'"
  shows "p = p'"
proof -
  from thrown_path_not_longer [OF assms] thrown_path_not_longer [OF assms(2,1)]
  have "length p = length p'" by simp
  with thrown_path_prefix [OF assms, of "length p"] show ?thesis by simp
qed

section \<open>Selection: auxiliary facts\<close>

subsection \<open>One round of expansion\<close>

lemma matching_subset:
  assumes "matcher_selects mp"
  shows "set (matching mp allNodes node) \<subseteq> set (map name allNodes)"
proof (cases "dependencies node \<noteq> []")
  case True
  then have "matching mp allNodes node = mp (dependencies node) (map name allNodes)"
    unfolding matching_def by (rule if_P)
  with assms show ?thesis
    unfolding matcher_selects_def by metis
next
  case False
  then show ?thesis by (simp add: matching_def)
qed

lemma push_step:
  assumes "m \<in> set (allNodeNames s)" and "aliased \<longrightarrow> includedNodeNames s = allNodeNames s"
  shows "allNodeNames (push aliased m s) = allNodeNames s \<and>
         set (includedNodeNames (push aliased m s)) = insert m (set (includedNodeNames s)) \<and>
         includedNodes (push aliased m s) = includedNodes s \<and>
         (aliased \<longrightarrow> includedNodeNames (push aliased m s) = includedNodeNames s)"
  using assms by (auto simp: push_def)

lemma fold_push:
  assumes "set ms \<subseteq> set (allNodeNames s)" and "aliased \<longrightarrow> includedNodeNames s = allNodeNames s"
  shows "allNodeNames (fold (push aliased) ms s) = allNodeNames s \<and>
         set (includedNodeNames (fold (push aliased) ms s)) = set (includedNodeNames s) \<union> set ms \<and>
         includedNodes (fold (push aliased) ms s) = includedNodes s \<and>
         (aliased \<longrightarrow> includedNodeNames (fold (push aliased) ms s) = includedNodeNames s)"
  using assms
proof (induction ms arbitrary: s)
  case Nil
  show ?case by simp
next
  case (Cons m ms)
  let ?s = "push aliased m s"
  from Cons.prems have m: "m \<in> set (allNodeNames s)" by simp
  note step = push_step [OF m Cons.prems(2)]
  from step Cons.prems have "set ms \<subseteq> set (allNodeNames ?s)"
    and "aliased \<longrightarrow> includedNodeNames ?s = allNodeNames ?s"
    by auto
  from Cons.IH [OF this] step show ?case by auto
qed

lemma expand_node_ok:
  assumes sel: "matcher_selects mp" and ok: "selection_ok aliased allNodes s"
  shows "selection_ok aliased allNodes (expand_node mp aliased allNodes node s) \<and>
         set (includedNodeNames (expand_node mp aliased allNodes node s))
           = set (includedNodeNames s) \<union> set (matching mp allNodes node)"
proof -
  let ?ms = "matching mp allNodes node"
  let ?s = "fold (push aliased) ?ms s"
  from ok have names: "allNodeNames s = map name allNodes"
    and al: "aliased \<longrightarrow> includedNodeNames s = allNodeNames s"
    and sub: "set (includedNodeNames s) \<subseteq> set (map name allNodes)"
    unfolding selection_ok_def by simp_all
  have e: "expand_node mp aliased allNodes node s =
      ?s\<lparr> includedNodes := filter (\<lambda>n. name n \<in> set (includedNodeNames ?s)) allNodes \<rparr>"
    unfolding expand_node_def matching_def Let_def names ..
  from matching_subset [OF sel, of allNodes node] names
  have "set ?ms \<subseteq> set (allNodeNames s)" by simp
  note f = fold_push [OF this al]
  from matching_subset [OF sel, of allNodes node] sub f
  have "set (includedNodeNames ?s) \<subseteq> set (map name allNodes)" by blast
  with f names al show ?thesis
    unfolding e selection_ok_def by simp
qed

lemma fold_expand_node_ok:
  assumes sel: "matcher_selects mp" and ok: "selection_ok aliased allNodes s"
  shows "selection_ok aliased allNodes (fold (expand_node mp aliased allNodes) ns s) \<and>
         set (includedNodeNames (fold (expand_node mp aliased allNodes) ns s))
           = set (includedNodeNames s) \<union> (\<Union>node \<in> set ns. set (matching mp allNodes node))"
  using ok
proof (induction ns arbitrary: s)
  case Nil
  then show ?case by simp
next
  case (Cons n ns)
  note step = expand_node_ok [OF sel Cons.prems, of n]
  from Cons.IH [of "expand_node mp aliased allNodes n s"] step
  show ?case by auto
qed

lemma expand_pass_ok:
  assumes sel: "matcher_selects mp" and ok: "selection_ok aliased allNodes s"
  shows "selection_ok aliased allNodes (expand_pass mp aliased allNodes s) \<and>
         set (includedNodeNames (expand_pass mp aliased allNodes s))
           = set (includedNodeNames s) \<union>
             matched_edges mp allNodes `` set (includedNodeNames s)"
proof -
  from ok have inc: "includedNodes s = filter (\<lambda>n. name n \<in> set (includedNodeNames s)) allNodes"
    unfolding selection_ok_def by simp
  have "(\<Union>node \<in> set (includedNodes s). set (matching mp allNodes node))
          = matched_edges mp allNodes `` set (includedNodeNames s)"
    unfolding inc matched_edges_def by auto
  with fold_expand_node_ok [OF sel ok, of "includedNodes s"] show ?thesis
    unfolding expand_pass_def by simp
qed

subsection \<open>Rounds up to the closure\<close>

lemma grow_within:
  assumes "R `` U \<subseteq> U" and "S \<subseteq> U"
  shows "((\<lambda>X. X \<union> R `` X) ^^ k) S \<subseteq> U"
proof (induction k)
  case 0
  show ?case using assms(2) by simp
next
  case (Suc k)
  then show ?case using assms(1) by auto
qed

lemma grow_below_closure: "((\<lambda>X. X \<union> R `` X) ^^ k) S \<subseteq> R\<^sup>* `` S"
proof (induction k)
  case 0
  show ?case by auto
next
  case (Suc k)
  have "R `` (R\<^sup>* `` S) \<subseteq> R\<^sup>* `` S"
    by (auto intro: rtrancl_into_rtrancl)
  with Suc have "R `` (((\<lambda>X. X \<union> R `` X) ^^ k) S) \<subseteq> R\<^sup>* `` S" by blast
  with Suc show ?case by simp
qed

lemma grow_stays:
  assumes "((\<lambda>X. X \<union> R `` X) ^^ Suc k) S = ((\<lambda>X. X \<union> R `` X) ^^ k) S"
  shows "((\<lambda>X. X \<union> R `` X) ^^ (k + j)) S = ((\<lambda>X. X \<union> R `` X) ^^ k) S"
proof (induction j)
  case 0
  show ?case by simp
next
  case (Suc j)
  have "((\<lambda>X. X \<union> R `` X) ^^ (k + Suc j)) S
          = (\<lambda>X. X \<union> R `` X) (((\<lambda>X. X \<union> R `` X) ^^ (k + j)) S)"
    by simp
  also have "\<dots> = (\<lambda>X. X \<union> R `` X) (((\<lambda>X. X \<union> R `` X) ^^ k) S)"
    by (simp only: Suc)
  also have "\<dots> = ((\<lambda>X. X \<union> R `` X) ^^ k) S"
    using assms by simp
  finally show ?case .
qed

lemma grow_card:
  assumes "finite U" and "R `` U \<subseteq> U" and "S \<subseteq> U"
    and "\<forall>k<m. ((\<lambda>X. X \<union> R `` X) ^^ Suc k) S \<noteq> ((\<lambda>X. X \<union> R `` X) ^^ k) S"
  shows "m \<le> card (((\<lambda>X. X \<union> R `` X) ^^ m) S)"
  using assms(4)
proof (induction m)
  case 0
  show ?case by simp
next
  case (Suc m)
  let ?F = "\<lambda>X. X \<union> R `` X"
  from Suc have "m \<le> card ((?F ^^ m) S)" by simp
  moreover have "(?F ^^ m) S \<subset> (?F ^^ Suc m) S"
    using Suc.prems by auto
  moreover have "finite ((?F ^^ Suc m) S)"
    using grow_within [OF assms(2,3), of "Suc m"] assms(1) by (rule finite_subset)
  ultimately show ?case
    using psubset_card_mono [of "(?F ^^ Suc m) S" "(?F ^^ m) S"] by linarith
qed

lemma grow_closed:
  assumes "finite U" and "card U \<le> n" and "R `` U \<subseteq> U" and "S \<subseteq> U"
  shows "R `` (((\<lambda>X. X \<union> R `` X) ^^ n) S) \<subseteq> ((\<lambda>X. X \<union> R `` X) ^^ n) S"
proof -
  let ?F = "\<lambda>X. X \<union> R `` X"
  have "\<exists>k\<le>n. (?F ^^ Suc k) S = (?F ^^ k) S"
  proof (rule ccontr)
    assume "\<not> (\<exists>k\<le>n. (?F ^^ Suc k) S = (?F ^^ k) S)"
    then have "\<forall>k<Suc n. (?F ^^ Suc k) S \<noteq> (?F ^^ k) S"
      by (simp add: less_Suc_eq_le)
    from grow_card [OF assms(1,3,4) this]
    have "Suc n \<le> card ((?F ^^ Suc n) S)" .
    also have "\<dots> \<le> card U"
      using grow_within [OF assms(3,4), of "Suc n"] assms(1) by (rule card_mono [rotated])
    finally show False using assms(2) by simp
  qed
  then obtain k where k: "k \<le> n" and stable: "(?F ^^ Suc k) S = (?F ^^ k) S" by blast
  from grow_stays [OF stable, of "n - k"] k have n: "(?F ^^ n) S = (?F ^^ k) S" by simp
  from stable have "R `` ((?F ^^ k) S) \<subseteq> (?F ^^ k) S" by auto
  with n show ?thesis by simp
qed

lemma grow_reaches_closure:
  assumes "finite U" and "card U \<le> n" and "R `` U \<subseteq> U" and "S \<subseteq> U"
  shows "((\<lambda>X. X \<union> R `` X) ^^ n) S = R\<^sup>* `` S"
proof
  show "((\<lambda>X. X \<union> R `` X) ^^ n) S \<subseteq> R\<^sup>* `` S" by (rule grow_below_closure)
next
  let ?T = "((\<lambda>X. X \<union> R `` X) ^^ n) S"
  have closed: "R `` ?T \<subseteq> ?T" using assms by (rule grow_closed)
  have base: "S \<subseteq> ?T"
  proof (induction n)
    case 0
    show ?case by simp
  next
    case (Suc n)
    then show ?case by auto
  qed
  show "R\<^sup>* `` S \<subseteq> ?T"
  proof
    fix b assume "b \<in> R\<^sup>* `` S"
    then obtain a where a: "a \<in> S" and "(a, b) \<in> R\<^sup>*" by blast
    from this(2) show "b \<in> ?T"
    proof (induction rule: rtrancl_induct)
      case base
      with a \<open>S \<subseteq> ?T\<close> show ?case by blast
    next
      case (step y z)
      with closed show ?case by blast
    qed
  qed
qed

subsection \<open>The selected names and the pruned nodes\<close>

lemma matcher_selectsD:
  "matcher_selects mp \<Longrightarrow> x \<in> set (mp patterns vals) \<Longrightarrow> x \<in> set vals"
  unfolding matcher_selects_def by blast

lemma initially_included_subset:
  assumes "matcher_selects mp"
  shows "set (initially_included mp allNodes rc) \<subseteq> set (map name allNodes)"
proof (cases "RunConfig.nodes rc \<noteq> []")
  case True
  then have "initially_included mp allNodes rc = mp (RunConfig.nodes rc) (map name allNodes)"
    unfolding initially_included_def by (rule if_P)
  with assms show ?thesis
    unfolding matcher_selects_def by metis
next
  case False
  then have "initially_included mp allNodes rc = map name allNodes"
    unfolding initially_included_def by (rule if_not_P)
  then show ?thesis by simp
qed

lemma selection_start_ok:
  assumes "matcher_selects mp"
  shows "selection_ok (RunConfig.nodes rc = []) allNodes
           \<lparr> allNodeNames = map name allNodes,
             includedNodeNames = initially_included mp allNodes rc,
             includedNodes = filter (\<lambda>node. name node \<in> set (initially_included mp allNodes rc))
                               allNodes \<rparr>"
  using initially_included_subset [OF assms, of allNodes rc]
  unfolding selection_ok_def by (simp add: initially_included_def)

lemma expand_rounds_ok:
  assumes sel: "matcher_selects mp" and ok: "selection_ok aliased allNodes s"
  shows "selection_ok aliased allNodes ((expand_pass mp aliased allNodes ^^ k) s) \<and>
         set (includedNodeNames ((expand_pass mp aliased allNodes ^^ k) s))
           = ((\<lambda>X. X \<union> matched_edges mp allNodes `` X) ^^ k) (set (includedNodeNames s))"
proof (induction k)
  case 0
  show ?case using ok by simp
next
  case (Suc k)
  then have "selection_ok aliased allNodes ((expand_pass mp aliased allNodes ^^ k) s)"
    by simp
  from expand_pass_ok [OF sel this] Suc show ?case by simp
qed

lemma select_unfold:
  "select mp allNodes rc =
     (let s = \<lparr> allNodeNames = map name allNodes,
                includedNodeNames = initially_included mp allNodes rc,
                includedNodes = filter (\<lambda>node. name node \<in> set (initially_included mp allNodes rc))
                                  allNodes \<rparr>
      in if includeDependencies rc
         then (expand_pass mp (RunConfig.nodes rc = []) allNodes ^^ length allNodes) s
         else s)"
  unfolding select_def initially_included_def Let_def by simp

lemma matched_edges_within:
  assumes "matcher_selects mp"
  shows "matched_edges mp allNodes `` U \<subseteq> set (map name allNodes)"
  using matching_subset [OF assms, of allNodes] unfolding matched_edges_def by blast

lemma select_ok:
  assumes sel: "matcher_selects mp"
  shows "selection_ok (RunConfig.nodes rc = []) allNodes (select mp allNodes rc) \<and>
         set (includedNodeNames (select mp allNodes rc)) =
           (if includeDependencies rc
            then (matched_edges mp allNodes)\<^sup>* `` set (initially_included mp allNodes rc)
            else set (initially_included mp allNodes rc))"
proof (cases "includeDependencies rc")
  case False
  with selection_start_ok [OF sel, of rc allNodes] show ?thesis
    unfolding select_unfold Let_def by simp
next
  case True
  let ?s = "\<lparr> allNodeNames = map name allNodes,
             includedNodeNames = initially_included mp allNodes rc,
             includedNodes = filter (\<lambda>node. name node \<in> set (initially_included mp allNodes rc))
                               allNodes \<rparr>"
  note rounds = expand_rounds_ok [OF sel selection_start_ok [OF sel, of rc allNodes],
      of "length allNodes"]
  have "card (set (map name allNodes)) \<le> length allNodes"
    using card_length [of "map name allNodes"] by simp
  from grow_reaches_closure [OF _ this matched_edges_within [OF sel]
      initially_included_subset [OF sel, of allNodes rc]]
  have "((\<lambda>X. X \<union> matched_edges mp allNodes `` X) ^^ length allNodes)
          (set (initially_included mp allNodes rc))
        = (matched_edges mp allNodes)\<^sup>* `` set (initially_included mp allNodes rc)"
    by simp
  with rounds True show ?thesis
    unfolding select_unfold Let_def by simp
qed

lemma prune_names:
  assumes "selection_ok aliased allNodes s"
  shows "map name (prune mp s) = filter (\<lambda>a. a \<in> set (includedNodeNames s)) (map name allNodes)"
proof -
  from assms have "includedNodes s = filter (\<lambda>n. name n \<in> set (includedNodeNames s)) allNodes"
    unfolding selection_ok_def by simp
  then show ?thesis
    unfolding prune_def by (simp add: filter_map comp_def)
qed

lemma prune_names_set:
  assumes "selection_ok aliased allNodes s"
  shows "set (map name (prune mp s)) = set (includedNodeNames s)"
proof -
  from assms have "set (includedNodeNames s) \<subseteq> set (map name allNodes)"
    unfolding selection_ok_def by simp
  then show ?thesis
    unfolding prune_names [OF assms] by auto
qed

lemma prune_dependencies:
  assumes "matcher_selects mp" and "node \<in> set (prune mp s)"
  shows "set (dependencies node) \<subseteq> set (includedNodeNames s)"
  using assms unfolding prune_def by (auto dest: matcher_selectsD)

subsection \<open>The matcher of the specification keeps the contract\<close>

lemma matchPatterns_selects: "matcher_selects matchPatterns"
  unfolding matcher_selects_def matchPatterns_def by simp

lemma matchPatterns_distinct: "distinct vals \<Longrightarrow> distinct (matchPatterns patterns vals)"
  unfolding matchPatterns_def by simp

lemma matchesPattern_exact: "CHR ''*'' \<notin> set p \<Longrightarrow> matchesPattern p v \<longleftrightarrow> p = v"
proof (induction p arbitrary: v)
  case Nil
  show ?case by auto
next
  case (Cons c p)
  then show ?case by (cases v) auto
qed

lemma matchPatterns_exact: "matcher_exact matchPatterns"
proof -
  have "list_ex (\<lambda>pattern. matchesPattern pattern v) patterns \<longleftrightarrow> v \<in> set patterns"
    if "\<forall>p \<in> set patterns. CHR ''*'' \<notin> set p" for patterns v
    using that by (auto simp: list_ex_iff matchesPattern_exact)
  then show ?thesis
    unfolding matcher_exact_def matchPatterns_def by (auto intro: filter_cong)
qed

section \<open>The builder on a store: auxiliary facts\<close>

subsection \<open>Arrays that exist before the call are not written\<close>

lemma push_at_frame:
  assumes "n \<le> r"
  shows "length (push_at r x h) = length h \<and> take n (push_at r x h) = take n h"
  using assms by (simp add: push_at_def)

lemma fold_push_at_frame:
  assumes "n \<le> r"
  shows "length (fold (push_at r) xs h) = length h \<and> take n (fold (push_at r) xs h) = take n h"
proof (induction xs arbitrary: h)
  case Nil
  show ?case by simp
next
  case (Cons x xs)
  from Cons [of "push_at r x h"] push_at_frame [OF assms, of x h] show ?case by simp
qed

lemma expand_node_stored_frame:
  assumes "n \<le> included_at"
  shows "length (fst (expand_node_stored mp all_at included_at allNodes node st)) = length (fst st) \<and>
         take n (fst (expand_node_stored mp all_at included_at allNodes node st)) = take n (fst st)"
  unfolding expand_node_stored_def Let_def using fold_push_at_frame [OF assms] by simp

lemma fold_expand_node_stored_frame:
  assumes "n \<le> included_at"
  shows "length (fst (fold (expand_node_stored mp all_at included_at allNodes) ns st))
           = length (fst st) \<and>
         take n (fst (fold (expand_node_stored mp all_at included_at allNodes) ns st))
           = take n (fst st)"
proof (induction ns arbitrary: st)
  case Nil
  show ?case by simp
next
  case (Cons node ns)
  from Cons [of "expand_node_stored mp all_at included_at allNodes node st"]
    expand_node_stored_frame [OF assms, of mp all_at allNodes node st]
  show ?case by simp
qed

lemma expand_pass_stored_frame:
  assumes "n \<le> included_at"
  shows "length (fst (expand_pass_stored mp all_at included_at allNodes st)) = length (fst st) \<and>
         take n (fst (expand_pass_stored mp all_at included_at allNodes st)) = take n (fst st)"
  unfolding expand_pass_stored_def by (rule fold_expand_node_stored_frame [OF assms])

lemma expand_rounds_stored_frame:
  assumes "n \<le> included_at"
  shows "length (fst ((expand_pass_stored mp all_at included_at allNodes ^^ k) st))
           = length (fst st) \<and>
         take n (fst ((expand_pass_stored mp all_at included_at allNodes ^^ k) st))
           = take n (fst st)"
proof (induction k)
  case 0
  show ?case by simp
next
  case (Suc k)
  let ?st = "(expand_pass_stored mp all_at included_at allNodes ^^ k) st"
  from expand_pass_stored_frame [OF assms, of mp all_at allNodes ?st] Suc
  show ?case by simp
qed

lemma prune_stored_frame:
  "prune_stored mp included_at ns h = (ns', h') \<Longrightarrow>
     length h \<le> length h' \<and> take (length h) h' = h \<and>
     (\<forall>node \<in> set ns'. length h \<le> dependencies_at node)"
proof (induction ns arbitrary: h ns' h')
  case Nil
  then show ?case by simp
next
  case (Cons node rest)
  let ?h = "h @ [mp (h ! dependencies_at node) (h ! included_at)]"
  obtain rest' h'' where r: "prune_stored mp included_at rest ?h = (rest', h'')"
    by (cases "prune_stored mp included_at rest ?h") auto
  with Cons.prems have ns': "ns' = node\<lparr> dependencies_at := length h \<rparr> # rest'"
    and h': "h' = h''"
    by (simp_all add: Let_def)
  from Cons.IH [OF r] have len: "length ?h \<le> length h''" and tk: "take (length ?h) h'' = ?h"
    and fresh: "\<forall>n \<in> set rest'. length ?h \<le> dependencies_at n"
    by simp_all
  from tk have "take (length h) (take (length ?h) h'') = take (length h) ?h" by simp
  then have "take (length h) h'' = h" by (simp add: min_def)
  with len fresh show ?case unfolding ns' h' by auto
qed

lemma build_stored_frame:
  assumes "build_stored mp ac h0 g rc = (outcome, h)"
  shows "length h0 \<le> length h \<and> take (length h0) h = h0 \<and>
         (\<forall>cfg rc' ns. outcome = Inr (cfg, rc', ns) \<longrightarrow>
            (\<forall>node \<in> set ns. length h0 \<le> dependencies_at node))"
proof -
  let ?allNodes = "translate_stored (ac (config_of g)) h0 g rc"
  let ?h1 = "h0 @ [map name_of ?allNodes]"
  show ?thesis
  proof (cases "validate (map (load_node ?h1) ?allNodes)")
    case (Inl e)
    with assms have "outcome = Inl e" and "h = ?h1"
      unfolding build_stored_def Let_def by simp_all
    then show ?thesis by simp
  next
    case (Inr u)
    let ?aliased = "RunConfig.nodes rc = []"
    let ?included_at = "if ?aliased then length h0 else length ?h1"
    let ?h2 = "if ?aliased then ?h1 else ?h1 @ [mp (RunConfig.nodes rc) (?h1 ! length h0)]"
    let ?st = "(?h2, filter (\<lambda>node. name_of node \<in> set (?h2 ! ?included_at)) ?allNodes)"
    let ?st' = "if includeDependencies rc
                then (expand_pass_stored mp (length h0) ?included_at ?allNodes
                        ^^ length ?allNodes) ?st
                else ?st"
    obtain pruned h3 where p: "prune_stored mp ?included_at (snd ?st') (fst ?st') = (pruned, h3)"
      by (cases "prune_stored mp ?included_at (snd ?st') (fst ?st')") auto
    with assms Inr have out: "outcome = Inr (config_of g, rc, pruned)" and h: "h = h3"
      unfolding build_stored_def Let_def by simp_all
    have at: "length h0 \<le> ?included_at" by simp
    have h2: "length h0 \<le> length ?h2 \<and> take (length h0) ?h2 = h0" by simp
    have st': "length h0 \<le> length (fst ?st') \<and> take (length h0) (fst ?st') = h0"
    proof (cases "includeDependencies rc")
      case True
      from expand_rounds_stored_frame [where n = "length h0" and included_at = ?included_at
          and mp = mp and all_at = "length h0" and allNodes = ?allNodes
          and k = "length ?allNodes" and st = ?st, OF at]
        h2 True
      show ?thesis by simp
    next
      case False
      with h2 show ?thesis by simp
    qed
    from prune_stored_frame [OF p]
    have l3: "length (fst ?st') \<le> length h3" and t3: "take (length (fst ?st')) h3 = fst ?st'"
      and fresh: "\<forall>node \<in> set pruned. length (fst ?st') \<le> dependencies_at node"
      by blast+
    from st' l3 have "length h0 \<le> length h3" by linarith
    moreover have "take (length h0) h3 = h0"
    proof -
      have "take (length h0) h3 = take (length h0) (take (length (fst ?st')) h3)"
        using st' by (simp add: min_def)
      also have "\<dots> = take (length h0) (fst ?st')" by (simp only: t3)
      also have "\<dots> = h0" using st' by blast
      finally show ?thesis .
    qed
    moreover have "\<forall>node \<in> set pruned. length h0 \<le> dependencies_at node"
      using fresh st' by fastforce
    ultimately show ?thesis unfolding out h by simp
  qed
qed

lemma load_graph_frame:
  assumes "graph_refs g \<subseteq> {..<length h0}" and "take (length h0) h = h0"
  shows "load_graph h g = load_graph h0 g"
proof -
  have same: "h ! r = h0 ! r" if "r \<in> graph_refs g" for r
  proof -
    from that assms(1) have "r < length h0" by blast
    then have "take (length h0) h ! r = h ! r" by simp
    with assms(2) show ?thesis by simp
  qed
  have "load_materialization h m = load_materialization h0 m"
    if "m \<in> set (materializations_of g)" for m
  proof -
    from that have "{dependencies_at m, pres_at m, posts_at m, assertions_at m} \<subseteq> graph_refs g"
      unfolding graph_refs_def by blast
    then show ?thesis unfolding load_materialization_def by (simp add: same)
  qed
  moreover have "load_operation h x = load_operation h0 x"
    if "x \<in> set (operations_of g)" for x
  proof -
    from that have "{dependencies_at x, statements_at x} \<subseteq> graph_refs g"
      unfolding graph_refs_def by blast
    then show ?thesis unfolding load_operation_def by (simp add: same)
  qed
  moreover have "load_assertion h x = load_assertion h0 x"
    if "x \<in> set (assertions_of g)" for x
  proof -
    from that have "{dependencies_at x, queries_at x} \<subseteq> graph_refs g"
      unfolding graph_refs_def by blast
    then show ?thesis unfolding load_assertion_def by (simp add: same)
  qed
  ultimately show ?thesis unfolding load_graph_def by simp
qed

subsection \<open>The store model and the value model agree\<close>

lemma translate_stored_refs:
  assumes "node \<in> set (translate_stored adapter h0 g rc)"
  shows "dependencies_at node \<in> graph_refs g"
  using assms unfolding translate_stored_def graph_refs_def create_node_def by auto

lemma translate_stored_loads:
  assumes wf: "graph_refs g \<subseteq> {..<length h0}" and tk: "take (length h0) h = h0"
  shows "map (load_node h) (translate_stored adapter h0 g rc) = translate adapter (load_graph h0 g) rc"
proof -
  have same: "h ! r = h0 ! r" if "r \<in> graph_refs g" for r
  proof -
    from that wf have "r < length h0" by blast
    then have "take (length h0) h ! r = h ! r" by simp
    with tk show ?thesis by simp
  qed
  have m: "load_node h (create_node (name_of m) (dependencies_at m)
              (tasks (buildMaterialization adapter rc (load_materialization h0 m))))
           = buildMaterialization adapter rc (load_materialization h0 m)"
    if "m \<in> set (materializations_of g)" for m
  proof -
    from that have "dependencies_at m \<in> graph_refs g"
      unfolding graph_refs_def by blast
    from same [OF this] show ?thesis
      unfolding load_node_def create_node_def buildMaterialization_def load_materialization_def
      by simp
  qed
  have o: "load_node h (create_node (name_of x) (dependencies_at x)
              (tasks (buildOperation (load_operation h0 x))))
           = buildOperation (load_operation h0 x)"
    if "x \<in> set (operations_of g)" for x
  proof -
    from that have "dependencies_at x \<in> graph_refs g"
      unfolding graph_refs_def by blast
    from same [OF this] show ?thesis
      unfolding load_node_def create_node_def buildOperation_def load_operation_def
      by simp
  qed
  have a: "load_node h (create_node (name_of x) (dependencies_at x)
              (tasks (buildAssertion (load_assertion h0 x))))
           = buildAssertion (load_assertion h0 x)"
    if "x \<in> set (assertions_of g)" for x
  proof -
    from that have "dependencies_at x \<in> graph_refs g"
      unfolding graph_refs_def by blast
    from same [OF this] show ?thesis
      unfolding load_node_def create_node_def buildAssertion_def load_assertion_def
      by simp
  qed
  show ?thesis
    unfolding translate_stored_def translate_def load_graph_def
    by (simp add: m o a)
qed

lemma push_at_agrees:
  assumes "a < length h" and "b < length h" and "aliased \<longleftrightarrow> a = b"
    and "allNodeNames s = h ! a" and "includedNodeNames s = h ! b"
  shows "allNodeNames (push aliased x s) = push_at b x h ! a \<and>
         includedNodeNames (push aliased x s) = push_at b x h ! b \<and>
         includedNodes (push aliased x s) = includedNodes s"
  using assms by (auto simp: push_def push_at_def)

lemma fold_push_at_agrees:
  assumes "a < length h" and "b < length h" and "aliased \<longleftrightarrow> a = b"
    and "allNodeNames s = h ! a" and "includedNodeNames s = h ! b"
  shows "allNodeNames (fold (push aliased) xs s) = fold (push_at b) xs h ! a \<and>
         includedNodeNames (fold (push aliased) xs s) = fold (push_at b) xs h ! b \<and>
         includedNodes (fold (push aliased) xs s) = includedNodes s"
  using assms
proof (induction xs arbitrary: s h)
  case Nil
  then show ?case by simp
next
  case (Cons x xs)
  note step = push_at_agrees [OF Cons.prems, of x]
  have len: "length (push_at b x h) = length h"
    by (simp add: push_at_def)
  from Cons.IH [of "push_at b x h" "push aliased x s"] step len Cons.prems
  show ?case by simp
qed

lemma expand_node_agrees:
  assumes sim: "stored_selection h0 a b s st"
    and a: "length h0 \<le> a" and b: "length h0 \<le> b" and al: "aliased \<longleftrightarrow> a = b"
    and ref: "dependencies_at node < length h0"
    and nodes: "allNodes = map (load_node h0) stored"
  shows "stored_selection h0 a b
           (expand_node mp aliased allNodes (load_node h0 node) s)
           (expand_node_stored mp a b stored node st)"
proof -
  let ?h = "fst st"
  from sim have tk: "take (length h0) ?h = h0" and la: "a < length ?h" and lb: "b < length ?h"
    and an: "allNodeNames s = ?h ! a" and inc: "includedNodeNames s = ?h ! b"
    unfolding stored_selection_def by simp_all
  from ref have "take (length h0) ?h ! dependencies_at node = ?h ! dependencies_at node"
    by simp
  with tk have dep: "dependencies (load_node h0 node) = ?h ! dependencies_at node"
    unfolding load_node_def by simp
  let ?ms = "if ?h ! dependencies_at node \<noteq> []
             then mp (?h ! dependencies_at node) (?h ! a) else []"
  let ?h' = "fold (push_at b) ?ms ?h"
  let ?s' = "fold (push aliased) ?ms s"
  note f = fold_push_at_agrees [OF la lb al an inc, of ?ms]
  from fold_push_at_frame [OF b, of ?ms ?h]
  have len: "length ?h' = length ?h" and tk': "take (length h0) ?h' = take (length h0) ?h"
    by simp_all
  have v: "expand_node mp aliased allNodes (load_node h0 node) s =
      ?s'\<lparr> includedNodes := filter (\<lambda>n. name n \<in> set (includedNodeNames ?s')) allNodes \<rparr>"
    unfolding expand_node_def Let_def dep an ..
  have w: "expand_node_stored mp a b stored node st =
      (?h', filter (\<lambda>n. name_of n \<in> set (?h' ! b)) stored)"
    unfolding expand_node_stored_def Let_def ..
  have "filter (\<lambda>n. name n \<in> set (includedNodeNames ?s')) allNodes
          = map (load_node h0) (filter (\<lambda>n. name_of n \<in> set (?h' ! b)) stored)"
    unfolding nodes filter_map using f by (simp add: comp_def load_node_def)
  with f len tk' tk la lb show ?thesis
    unfolding v w stored_selection_def by simp
qed

lemma fold_expand_node_agrees:
  assumes a: "length h0 \<le> a" and b: "length h0 \<le> b" and al: "aliased \<longleftrightarrow> a = b"
    and refs: "\<forall>node \<in> set ns. dependencies_at node < length h0"
    and nodes: "allNodes = map (load_node h0) stored"
    and sim: "stored_selection h0 a b s st"
  shows "stored_selection h0 a b
           (fold (expand_node mp aliased allNodes) (map (load_node h0) ns) s)
           (fold (expand_node_stored mp a b stored) ns st)"
  using refs sim
proof (induction ns arbitrary: s st)
  case Nil
  then show ?case by simp
next
  case (Cons node ns)
  from Cons.prems have "dependencies_at node < length h0" by simp
  from expand_node_agrees [OF Cons.prems(2) a b al this nodes, of mp]
  have "stored_selection h0 a b (expand_node mp aliased allNodes (load_node h0 node) s)
          (expand_node_stored mp a b stored node st)" .
  from Cons.IH [OF _ this] Cons.prems(1) show ?case by simp
qed

lemma expand_pass_agrees:
  assumes a: "length h0 \<le> a" and b: "length h0 \<le> b" and al: "aliased \<longleftrightarrow> a = b"
    and refs: "\<forall>node \<in> set stored. dependencies_at node < length h0"
    and nodes: "allNodes = map (load_node h0) stored"
    and inside: "set (snd st) \<subseteq> set stored"
    and sim: "stored_selection h0 a b s st"
  shows "stored_selection h0 a b (expand_pass mp aliased allNodes s)
           (expand_pass_stored mp a b stored st) \<and>
         set (snd (expand_pass_stored mp a b stored st)) \<subseteq> set stored"
proof -
  from sim have inc: "includedNodes s = map (load_node h0) (snd st)"
    unfolding stored_selection_def by simp
  from refs inside have "\<forall>node \<in> set (snd st). dependencies_at node < length h0" by blast
  from fold_expand_node_agrees [OF a b al this nodes sim, of mp]
  have "stored_selection h0 a b (expand_pass mp aliased allNodes s)
          (expand_pass_stored mp a b stored st)"
    unfolding expand_pass_def expand_pass_stored_def inc .
  moreover have "set (snd (fold (expand_node_stored mp a b stored) ns st')) \<subseteq> set stored"
    if "set (snd st') \<subseteq> set stored" for ns st'
    using that
  proof (induction ns arbitrary: st')
    case Nil
    then show ?case by simp
  next
    case (Cons n ns)
    have "set (snd (expand_node_stored mp a b stored n st')) \<subseteq> set stored"
      unfolding expand_node_stored_def Let_def by auto
    from Cons.IH [OF this] show ?case by simp
  qed
  ultimately show ?thesis
    unfolding expand_pass_stored_def using inside by blast
qed

lemma expand_rounds_agree:
  assumes a: "length h0 \<le> a" and b: "length h0 \<le> b" and al: "aliased \<longleftrightarrow> a = b"
    and refs: "\<forall>node \<in> set stored. dependencies_at node < length h0"
    and nodes: "allNodes = map (load_node h0) stored"
    and inside: "set (snd st) \<subseteq> set stored"
    and sim: "stored_selection h0 a b s st"
  shows "stored_selection h0 a b ((expand_pass mp aliased allNodes ^^ k) s)
           ((expand_pass_stored mp a b stored ^^ k) st) \<and>
         set (snd ((expand_pass_stored mp a b stored ^^ k) st)) \<subseteq> set stored"
proof (induction k)
  case 0
  from sim inside show ?case by simp
next
  case (Suc k)
  then have i: "set (snd ((expand_pass_stored mp a b stored ^^ k) st)) \<subseteq> set stored"
    and s: "stored_selection h0 a b ((expand_pass mp aliased allNodes ^^ k) s)
              ((expand_pass_stored mp a b stored ^^ k) st)"
    by simp_all
  from expand_pass_agrees [OF a b al refs nodes i s, of mp] show ?case by simp
qed

lemma prune_stored_loads:
  assumes "\<forall>n \<in> set ns. dependencies_at n < length h" and "b < length h"
    and "prune_stored mp b ns h = (ns', h')"
  shows "map (load_node h') ns' =
           map (\<lambda>n. \<lparr> name = name_of n,
                       dependencies = mp (h ! dependencies_at n) (h ! b),
                       tasks = tasks_of n \<rparr>) ns"
  using assms
proof (induction ns arbitrary: h ns' h')
  case Nil
  then show ?case by simp
next
  case (Cons node rest)
  let ?x = "mp (h ! dependencies_at node) (h ! b)"
  let ?hx = "h @ [?x]"
  obtain rest' h'' where r: "prune_stored mp b rest ?hx = (rest', h'')"
    by (cases "prune_stored mp b rest ?hx") auto
  with Cons.prems(3) have ns': "ns' = node\<lparr> dependencies_at := length h \<rparr> # rest'"
    and h': "h' = h''"
    by (simp_all add: Let_def)
  from Cons.prems(1) have refs: "\<forall>n \<in> set rest. dependencies_at n < length ?hx"
    by (auto simp: less_Suc_eq)
  from Cons.prems(2) have b: "b < length ?hx" by simp
  from Cons.IH [OF refs b r]
  have "map (load_node h'') rest' =
      map (\<lambda>n. \<lparr> name = name_of n,
                  dependencies = mp (?hx ! dependencies_at n) (?hx ! b),
                  tasks = tasks_of n \<rparr>) rest" .
  also have "\<dots> = map (\<lambda>n. \<lparr> name = name_of n,
                  dependencies = mp (h ! dependencies_at n) (h ! b),
                  tasks = tasks_of n \<rparr>) rest"
    using Cons.prems(1,2) by (intro map_cong refl) (simp add: nth_append)
  finally have tail: "map (load_node h'') rest' =
      map (\<lambda>n. \<lparr> name = name_of n,
                  dependencies = mp (h ! dependencies_at n) (h ! b),
                  tasks = tasks_of n \<rparr>) rest" .
  from prune_stored_frame [OF r] have "take (length ?hx) h'' = ?hx" by blast
  then have "take (length ?hx) h'' ! length h = ?hx ! length h" by simp
  then have "h'' ! length h = ?x" by simp
  then have "load_node h'' (node\<lparr> dependencies_at := length h \<rparr>) =
      \<lparr> name = name_of node, dependencies = ?x, tasks = tasks_of node \<rparr>"
    unfolding load_node_def by simp
  with tail show ?case unfolding ns' h' by simp
qed

lemma prune_agrees:
  assumes sim: "stored_selection h0 a b s st"
    and refs: "\<forall>n \<in> set (snd st). dependencies_at n < length h0"
    and run: "prune_stored mp b (snd st) (fst st) = (ns', h')"
  shows "prune mp s = map (load_node h') ns'"
proof -
  let ?h = "fst st"
  from sim have tk: "take (length h0) ?h = h0" and lb: "b < length ?h"
    and inc: "includedNodeNames s = ?h ! b"
    and incn: "includedNodes s = map (load_node h0) (snd st)"
    unfolding stored_selection_def by simp_all
  have len: "length h0 \<le> length ?h"
    using tk by (metis length_take min.cobounded1)
  have same: "?h ! dependencies_at n = h0 ! dependencies_at n" if "n \<in> set (snd st)" for n
  proof -
    from that refs have "dependencies_at n < length h0" by blast
    then have "take (length h0) ?h ! dependencies_at n = ?h ! dependencies_at n" by simp
    with tk show ?thesis by simp
  qed
  from refs len have "\<forall>n \<in> set (snd st). dependencies_at n < length ?h" by fastforce
  from prune_stored_loads [OF this lb run]
  have "map (load_node h') ns' =
      map (\<lambda>n. \<lparr> name = name_of n,
                  dependencies = mp (?h ! dependencies_at n) (?h ! b),
                  tasks = tasks_of n \<rparr>) (snd st)" .
  also have "\<dots> = map (\<lambda>n. (load_node h0 n)\<lparr> dependencies :=
                        mp (dependencies (load_node h0 n)) (includedNodeNames s) \<rparr>) (snd st)"
    by (intro map_cong refl) (simp add: load_node_def same inc)
  also have "\<dots> = prune mp s"
    unfolding prune_def incn by (simp add: comp_def)
  finally show ?thesis by simp
qed

lemma build_stored_agrees:
  assumes wf: "graph_refs g \<subseteq> {..<length h0}"
    and run: "build_stored mp ac h0 g rc = (outcome, h)"
  shows "build mp ac (load_graph h0 g) rc =
           (case outcome of
              Inl e \<Rightarrow> Inl e
            | Inr (cfg, rc', ns) \<Rightarrow>
                Inr \<lparr> projectConfig = cfg, runConfig = rc', nodes = map (load_node h) ns \<rparr>)"
proof -
  let ?stored = "translate_stored (ac (config_of g)) h0 g rc"
  let ?a = "length h0"
  let ?h1 = "h0 @ [map name_of ?stored]"
  let ?V = "translate (ac (config_of g)) (load_graph h0 g) rc"
  have cfg: "CompiledGraph.projectConfig (load_graph h0 g) = config_of g"
    unfolding load_graph_def by simp
  have V1: "map (load_node ?h1) ?stored = ?V"
    by (rule translate_stored_loads [OF wf]) simp
  have V0: "?V = map (load_node h0) ?stored"
    by (rule translate_stored_loads [OF wf, symmetric]) simp
  have names: "map name ?V = map name_of ?stored"
    unfolding V0 by (simp add: comp_def load_node_def)
  have refs: "\<forall>node \<in> set ?stored. dependencies_at node < length h0"
    using translate_stored_refs wf by blast
  show ?thesis
  proof (cases "validate ?V")
    case (Inl e)
    with run have "outcome = Inl e"
      unfolding build_stored_def Let_def V1 by simp
    with Inl show ?thesis
      unfolding build_def Let_def cfg by simp
  next
    case (Inr u)
    let ?aliased = "RunConfig.nodes rc = []"
    let ?b = "if ?aliased then ?a else length ?h1"
    let ?h2 = "if ?aliased then ?h1 else ?h1 @ [mp (RunConfig.nodes rc) (?h1 ! ?a)]"
    let ?st = "(?h2, filter (\<lambda>node. name_of node \<in> set (?h2 ! ?b)) ?stored)"
    let ?st' = "if includeDependencies rc
                then (expand_pass_stored mp ?a ?b ?stored ^^ length ?stored) ?st
                else ?st"
    let ?included = "if \<not> ?aliased then mp (RunConfig.nodes rc) (map name ?V) else map name ?V"
    let ?s = "\<lparr> allNodeNames = map name ?V, includedNodeNames = ?included,
               includedNodes = filter (\<lambda>node. name node \<in> set ?included) ?V \<rparr>"
    let ?s' = "if includeDependencies rc
               then (expand_pass mp ?aliased ?V ^^ length ?V) ?s else ?s"
    obtain pruned h3 where p: "prune_stored mp ?b (snd ?st') (fst ?st') = (pruned, h3)"
      by (cases "prune_stored mp ?b (snd ?st') (fst ?st')") auto
    with run Inr have out: "outcome = Inr (config_of g, rc, pruned)" and h: "h = h3"
      unfolding build_stored_def Let_def V1 by simp_all
    have sel: "select mp ?V rc = ?s'"
      unfolding select_def Let_def by simp
    have a: "length h0 \<le> ?a" and b: "length h0 \<le> ?b" and al: "?aliased \<longleftrightarrow> ?a = ?b"
      by simp_all
    have h2b: "?h2 ! ?b = ?included"
      by (simp add: names nth_append)
    have h2a: "?h2 ! ?a = map name ?V"
      by (simp add: names nth_append)
    have "filter (\<lambda>node. name node \<in> set ?included) ?V
            = map (load_node h0) (filter (\<lambda>node. name_of node \<in> set ?included) ?stored)"
      unfolding V0 filter_map by (simp add: comp_def load_node_def)
    then have sim: "stored_selection h0 ?a ?b ?s ?st"
      unfolding stored_selection_def using h2a h2b by simp
    have inside: "set (snd ?st) \<subseteq> set ?stored" by auto
    have len: "length ?V = length ?stored" unfolding V0 by simp
    have sim': "stored_selection h0 ?a ?b ?s' ?st' \<and> set (snd ?st') \<subseteq> set ?stored"
    proof (cases "includeDependencies rc")
      case True
      from expand_rounds_agree [OF a b al refs V0 inside sim,
          where mp = mp and k = "length ?stored"] True len
      show ?thesis by simp
    next
      case False
      with sim inside show ?thesis by simp
    qed
    then have "\<forall>n \<in> set (snd ?st'). dependencies_at n < length h0"
      using refs by blast
    from prune_agrees [OF _ this p] sim'
    have "prune mp ?s' = map (load_node h3) pruned" by blast
    with Inr show ?thesis
      unfolding build_def Let_def cfg sel out h by simp
  qed
qed

section \<open>No dangling dependency after pruning\<close>

text \<open>
  Claim C1. Given a matcher that returns candidates only, every name in the dependency
  list of a node of the returned graph is the name of a node of the returned graph.
\<close>

theorem no_dangling_dependencies:
  assumes "matcher_selects mp" and "build mp ac cg rc = Inr g"
  shows "\<forall>node \<in> set (nodes g). \<forall>d \<in> set (dependencies node). d \<in> set (map name (nodes g))"
proof (intro ballI)
  fix node d
  assume node: "node \<in> set (nodes g)" and d: "d \<in> set (dependencies node)"
  let ?allNodes = "translate (ac (CompiledGraph.projectConfig cg)) cg rc"
  let ?s = "select mp ?allNodes rc"
  from assms(2) have g: "nodes g = prune mp ?s"
    unfolding build_Inr_iff by simp
  from select_ok [OF assms(1), of rc ?allNodes]
  have ok: "selection_ok (RunConfig.nodes rc = []) ?allNodes ?s" by simp
  from prune_dependencies [OF assms(1)] node d g
  have "d \<in> set (includedNodeNames ?s)" by auto
  then show "d \<in> set (map name (nodes g))"
    unfolding g prune_names_set [OF ok] .
qed

text \<open>The theorem where A depends on B and C, and A and B are selected.\<close>

theorem no_dangling_dependencies_witness:
  fixes ac :: "unit \<Rightarrow> (unit, unit) Adapter" and rc :: RunConfig
    and cg :: "(unit, unit) CompiledGraph" and g :: "(unit, unit) ExecutionGraph"
  defines "ac \<equiv> \<lambda>cfg m r. []"
    and "rc \<equiv> \<lparr> RunConfig.nodes = [''A'', ''B''], includeDependencies = False \<rparr>"
    and "cg \<equiv> \<lparr> CompiledGraph.projectConfig = (), materializations = [],
           operations = [\<lparr> name = ''A'', dependencies = [''B'', ''C''], statements = [] \<rparr>,
                         \<lparr> name = ''B'', dependencies = [], statements = [] \<rparr>,
                         \<lparr> name = ''C'', dependencies = [], statements = [] \<rparr>],
           CompiledGraph.assertions = [] \<rparr>"
    and "g \<equiv> \<lparr> projectConfig = (),
                runConfig = \<lparr> RunConfig.nodes = [''A'', ''B''], includeDependencies = False \<rparr>,
                nodes = [\<lparr> name = ''A'', dependencies = [''B''], tasks = [] \<rparr>,
                         \<lparr> name = ''B'', dependencies = [], tasks = [] \<rparr>] \<rparr>"
  shows "matcher_selects matchPatterns \<and> build matchPatterns ac cg rc = Inr g \<and>
         set (dependencies (nodes g ! 0)) \<subseteq> set (map name (nodes g))"
proof -
  have b: "build matchPatterns ac cg rc = Inr g"
    unfolding ac_def rc_def cg_def g_def by code_simp
  have "nodes g ! 0 \<in> set (nodes g)"
    unfolding g_def by simp
  with no_dangling_dependencies [OF matchPatterns_selects b]
  have "set (dependencies (nodes g ! 0)) \<subseteq> set (map name (nodes g))"
    by blast
  with b matchPatterns_selects show ?thesis by blast
qed

section \<open>Circular dependencies\<close>

text \<open>
  Claim C2, as the code has it. Assume that every dependency names a node. An error of
  \<^verbatim>\<open>build\<close> is then the circular-dependency error of the one thrown path of the graph: the
  path of the traversal from the first root that reaches a cycle, through the first
  dependency at each node that does, down to the first node met twice. The message is
  \<^verbatim>\<open>Circular dependency detected in chain: [\<close>, then the name of each node of the path
  but the last, each followed by \<^verbatim>\<open> > \<close>, then the name of the last node, the repeated
  one, then \<^verbatim>\<open>]\<close>; the names follow dependency edges. The dependency graph on names then
  has a cycle; when the graph has no cycle, \<^verbatim>\<open>build\<close> goes on to selection and returns.
  When, in addition, no two nodes share a name, every cycle of the graph (a
  self-dependency included) makes \<^verbatim>\<open>build\<close> throw.
\<close>

theorem build_circular_dependency:
  fixes mp :: Matcher and ac :: "'cfg \<Rightarrow> ('m, 'r) Adapter"
    and cg :: "('cfg, 'm) CompiledGraph" and rc :: "'r RunConfig_scheme"
  defines "allNodes \<equiv> translate (ac (CompiledGraph.projectConfig cg)) cg rc"
  assumes exist: "dependencies_exist allNodes"
  shows "(\<forall>e. build mp ac cg rc = Inl e \<longrightarrow>
            (\<exists>p. thrown_path allNodes p \<and> (\<forall>p'. thrown_path allNodes p' \<longrightarrow> p' = p) \<and>
               successively (\<lambda>a b. (a, b) \<in> dependency_graph allNodes)
                 (map (\<lambda>i. name (allNodes ! i)) p) \<and>
               e = Error (''Circular dependency detected in chain: ['' @
                     concat (map (\<lambda>i. name (allNodes ! i) @ '' > '') (butlast p)) @
                     name (allNodes ! last p) @ '']''))) \<and>
         ((\<exists>e. build mp ac cg rc = Inl e) \<longrightarrow> (\<exists>a. (a, a) \<in> (dependency_graph allNodes)\<^sup>+)) \<and>
         (distinct (map name allNodes) \<and> (\<exists>a. (a, a) \<in> (dependency_graph allNodes)\<^sup>+) \<longrightarrow>
            (\<exists>e. build mp ac cg rc = Inl e)) \<and>
         ((\<forall>a. (a, a) \<notin> (dependency_graph allNodes)\<^sup>+) \<longrightarrow>
            build mp ac cg rc =
              Inr \<lparr> projectConfig = CompiledGraph.projectConfig cg, runConfig = rc,
                    nodes = prune mp (select mp allNodes rc) \<rparr>)"
proof -
  let ?G = "dependency_graph allNodes"
  let ?name = "\<lambda>i. name (allNodes ! i)"
  have shape: "\<exists>p. thrown_path allNodes p \<and> (\<forall>p'. thrown_path allNodes p' \<longrightarrow> p' = p) \<and>
      successively (\<lambda>a b. (a, b) \<in> ?G) (map ?name p) \<and>
      e = Error (''Circular dependency detected in chain: ['' @
            concat (map (\<lambda>i. ?name i @ '' > '') (butlast p)) @ ?name (last p) @ '']'')"
    if "build mp ac cg rc = Inl e" for e
  proof -
    from that have "validate allNodes = Inl e"
      unfolding build_Inl_iff allNodes_def [symmetric] .
    from validate_thrown_path [OF exist this] obtain p where
      p: "thrown_path allNodes p"
      and path: "successively (\<lambda>a b. (a, b) \<in> resolved_edges allNodes) p"
      and e: "e = Error (circular_message (map ?name (butlast p)) (?name (last p)))"
      by blast
    from p have "butlast p \<noteq> []" unfolding thrown_path_def by auto
    from circular_message_text [OF this, of ?name "?name (last p)"]
    have msg: "e = Error (''Circular dependency detected in chain: ['' @
            concat (map (\<lambda>i. ?name i @ '' > '') (butlast p)) @ ?name (last p) @ '']'')"
      unfolding e by (rule arg_cong)
    have only: "\<forall>p'. thrown_path allNodes p' \<longrightarrow> p' = p"
      by (intro allI impI) (rule thrown_path_unique [OF _ p])
    show ?thesis
      by (rule exI [of _ p]) (intro conjI, rule p, rule only,
          rule chain_names_in_graph [OF path], rule msg)
  qed
  have cyc: "\<exists>a. (a, a) \<in> ?G\<^sup>+" if "\<exists>e. build mp ac cg rc = Inl e"
  proof -
    from that obtain e where "build mp ac cg rc = Inl e" ..
    from shape [OF this] obtain p where p: "thrown_path allNodes p"
      and s: "successively (\<lambda>a b. (a, b) \<in> ?G) (map ?name p)"
      by (elim exE conjE) (rule that)
    from p have ne: "p \<noteq> []" and mem: "last p \<in> set (butlast p)"
      unfolding thrown_path_def by simp_all
    from ne have "map ?name p = map ?name (butlast p) @ [?name (last p)]"
      by (rule map_butlast_last)
    with s have path: "successively (\<lambda>a b. (a, b) \<in> ?G)
        (map ?name (butlast p) @ [?name (last p)])"
      by simp
    from mem have "?name (last p) \<in> set (map ?name (butlast p))" by simp
    from this path have "(?name (last p), ?name (last p)) \<in> ?G\<^sup>+"
      by (rule chain_revisit_cycle)
    then show ?thesis by blast
  qed
  have found: "\<exists>e. build mp ac cg rc = Inl e"
    if "distinct (map name allNodes) \<and> (\<exists>a. (a, a) \<in> ?G\<^sup>+)"
  proof -
    from that obtain a where "distinct (map name allNodes)" "(a, a) \<in> ?G\<^sup>+" by blast
    from graph_cycle_resolved [OF exist this]
    obtain c where "(c, c) \<in> (resolved_edges allNodes)\<^sup>+" by blast
    from validate_finds_cycle [OF exist this] show ?thesis
      unfolding build_Inl_iff allNodes_def [symmetric] .
  qed
  have proceeds: "build mp ac cg rc =
      Inr \<lparr> projectConfig = CompiledGraph.projectConfig cg, runConfig = rc,
            nodes = prune mp (select mp allNodes rc) \<rparr>"
    if "\<forall>a. (a, a) \<notin> ?G\<^sup>+"
  proof -
    from that cyc have "\<nexists>e. build mp ac cg rc = Inl e" by blast
    then have "validate allNodes = Inr ()"
      unfolding build_Inl_iff allNodes_def [symmetric]
      by (cases "validate allNodes") auto
    then show ?thesis
      unfolding build_Inr_iff allNodes_def [symmetric] by simp
  qed
  show ?thesis
  proof (intro conjI allI impI)
    fix e assume "build mp ac cg rc = Inl e"
    then show "\<exists>p. thrown_path allNodes p \<and> (\<forall>p'. thrown_path allNodes p' \<longrightarrow> p' = p) \<and>
      successively (\<lambda>a b. (a, b) \<in> ?G) (map ?name p) \<and>
      e = Error (''Circular dependency detected in chain: ['' @
            concat (map (\<lambda>i. ?name i @ '' > '') (butlast p)) @ ?name (last p) @ '']'')"
      by (rule shape)
  next
    assume "\<exists>e. build mp ac cg rc = Inl e"
    then show "\<exists>a. (a, a) \<in> ?G\<^sup>+" by (rule cyc)
  next
    assume "distinct (map name allNodes) \<and> (\<exists>a. (a, a) \<in> ?G\<^sup>+)"
    then show "\<exists>e. build mp ac cg rc = Inl e" by (rule found)
  next
    assume "\<forall>a. (a, a) \<notin> ?G\<^sup>+"
    then show "build mp ac cg rc =
      Inr \<lparr> projectConfig = CompiledGraph.projectConfig cg, runConfig = rc,
            nodes = prune mp (select mp allNodes rc) \<rparr>" by (rule proceeds)
  qed
qed

text \<open>
  The theorem at the nodes A, B, C whose names are distinct, where A depends on B, B on C
  and C on B: the cycle does not pass through the root A, and the message lists the whole
  path from A. The path is found from its definition and the message from the theorem.
  And at the chain from A to B, which has no cycle.
\<close>

theorem build_circular_dependency_witness:
  fixes ac :: "unit \<Rightarrow> (unit, unit) Adapter" and rc :: RunConfig
    and cyclic chain :: "(unit, unit) CompiledGraph"
  defines "ac \<equiv> \<lambda>cfg m r. []"
    and "rc \<equiv> \<lparr> RunConfig.nodes = [], includeDependencies = False \<rparr>"
    and "cyclic \<equiv> \<lparr> CompiledGraph.projectConfig = (), materializations = [],
           operations = [\<lparr> name = ''A'', dependencies = [''B''], statements = [] \<rparr>,
                         \<lparr> name = ''B'', dependencies = [''C''], statements = [] \<rparr>,
                         \<lparr> name = ''C'', dependencies = [''B''], statements = [] \<rparr>],
           CompiledGraph.assertions = [] \<rparr>"
    and "chain \<equiv> \<lparr> CompiledGraph.projectConfig = (), materializations = [],
           operations = [\<lparr> name = ''A'', dependencies = [''B''], statements = [] \<rparr>,
                         \<lparr> name = ''B'', dependencies = [], statements = [] \<rparr>],
           CompiledGraph.assertions = [] \<rparr>"
  shows "dependencies_exist (translate (ac (CompiledGraph.projectConfig cyclic)) cyclic rc) \<and>
         distinct (map name (translate (ac (CompiledGraph.projectConfig cyclic)) cyclic rc)) \<and>
         (''B'', ''B'') \<in> (dependency_graph
                 (translate (ac (CompiledGraph.projectConfig cyclic)) cyclic rc))\<^sup>+ \<and>
         thrown_path (translate (ac (CompiledGraph.projectConfig cyclic)) cyclic rc)
           [0, 1, 2, 1] \<and>
         build matchPatterns ac cyclic rc =
           Inl (Error ''Circular dependency detected in chain: [A > B > C > B]'') \<and>
         dependencies_exist (translate (ac (CompiledGraph.projectConfig chain)) chain rc) \<and>
         (\<forall>a. (a, a) \<notin> (dependency_graph
                 (translate (ac (CompiledGraph.projectConfig chain)) chain rc))\<^sup>+) \<and>
         build matchPatterns ac chain rc =
           Inr \<lparr> projectConfig = (), runConfig = rc,
                 nodes = [\<lparr> name = ''A'', dependencies = [''B''], tasks = [] \<rparr>,
                          \<lparr> name = ''B'', dependencies = [], tasks = [] \<rparr>] \<rparr>"
proof -
  let ?cyc = "translate (ac (CompiledGraph.projectConfig cyclic)) cyclic rc"
  let ?chn = "translate (ac (CompiledGraph.projectConfig chain)) chain rc"
  have nodes: "?cyc = [\<lparr> name = ''A'', dependencies = [''B''], tasks = [] \<rparr>,
                       \<lparr> name = ''B'', dependencies = [''C''], tasks = [] \<rparr>,
                       \<lparr> name = ''C'', dependencies = [''B''], tasks = [] \<rparr>]"
    unfolding ac_def rc_def cyclic_def by (simp add: translate_def buildOperation_def)
  have ex: "dependencies_exist ?cyc"
    unfolding nodes by (simp add: dependencies_exist_def)
  have di: "distinct (map name ?cyc)"
    unfolding nodes by simp
  have "(''B'', ''C'') \<in> dependency_graph ?cyc" and "(''C'', ''B'') \<in> dependency_graph ?cyc"
    unfolding nodes by (simp_all add: dependency_graph_def)
  then have cyc: "(''B'', ''B'') \<in> (dependency_graph ?cyc)\<^sup>+"
    by (rule trancl_trans [OF r_into_trancl r_into_trancl])
  have lookB: "nodeNameMap ?cyc ''B'' = Some 1" and lookC: "nodeNameMap ?cyc ''C'' = Some 2"
    unfolding nodes by (simp_all add: nodeNameMap_def upt_rec)
  have steps: "descends ?cyc [0, 1, 2, 1] k" if "Suc k < 4" for k
  proof -
    from that consider "k = 0" | "k = 1" | "k = 2" by linarith
    then show ?thesis
    proof cases
      case 1
      have "dependencies (?cyc ! 0) = [''B'']" unfolding nodes by simp
      with lookB 1 show ?thesis unfolding descends_def by simp
    next
      case 2
      have "dependencies (?cyc ! 1) = [''C'']" unfolding nodes by simp
      with lookC 2 show ?thesis unfolding descends_def by simp
    next
      case 3
      have "dependencies (?cyc ! 2) = [''B'']" unfolding nodes by simp
      with lookB 3 show ?thesis unfolding descends_def by (simp add: numeral_2_eq_2)
    qed
  qed
  have len: "length ?cyc = 3" unfolding nodes by simp
  from steps len have tp: "thrown_path ?cyc [0, 1, 2, 1]"
    unfolding thrown_path_def by simp
  note on_cycle = build_circular_dependency [of ac cyclic rc matchPatterns, OF ex]
  from cyc have "\<exists>a. (a, a) \<in> (dependency_graph ?cyc)\<^sup>+" ..
  with di on_cycle [THEN conjunct2, THEN conjunct2, THEN conjunct1]
  obtain e where e: "build matchPatterns ac cyclic rc = Inl e" by blast
  from on_cycle [THEN conjunct1, rule_format, OF e]
  obtain p where only: "\<forall>p'. thrown_path ?cyc p' \<longrightarrow> p' = p"
    and msg: "e = Error (''Circular dependency detected in chain: ['' @
                concat (map (\<lambda>i. name (?cyc ! i) @ '' > '') (butlast p)) @
                name (?cyc ! last p) @ '']'')"
    by (elim exE conjE) (rule that)
  from only tp have p: "p = [0, 1, 2, 1]" by simp
  have "e = Error ''Circular dependency detected in chain: [A > B > C > B]''"
    unfolding msg p nodes by simp
  with e have err: "build matchPatterns ac cyclic rc =
      Inl (Error ''Circular dependency detected in chain: [A > B > C > B]'')"
    by simp
  have ex': "dependencies_exist ?chn"
    unfolding ac_def rc_def chain_def
    by (simp add: dependencies_exist_def translate_def buildOperation_def)
  have "dependency_graph ?chn = {(''A'', ''B'')}"
    unfolding ac_def rc_def chain_def
    by (auto simp: dependency_graph_def translate_def buildOperation_def)
  then have acyc: "\<forall>a. (a, a) \<notin> (dependency_graph ?chn)\<^sup>+"
    by (simp add: trancl_insert)
  have sel: "prune matchPatterns (select matchPatterns ?chn rc) =
      [\<lparr> name = ''A'', dependencies = [''B''], tasks = [] \<rparr>,
       \<lparr> name = ''B'', dependencies = [], tasks = [] \<rparr>]"
    unfolding ac_def rc_def chain_def by code_simp
  from build_circular_dependency [of ac chain rc matchPatterns, OF ex',
      THEN conjunct2, THEN conjunct2, THEN conjunct2, THEN mp, OF acyc]
  have "build matchPatterns ac chain rc =
      Inr \<lparr> projectConfig = CompiledGraph.projectConfig chain, runConfig = rc,
            nodes = prune matchPatterns (select matchPatterns ?chn rc) \<rparr>" .
  then have ok: "build matchPatterns ac chain rc =
      Inr \<lparr> projectConfig = (), runConfig = rc,
            nodes = [\<lparr> name = ''A'', dependencies = [''B''], tasks = [] \<rparr>,
                     \<lparr> name = ''B'', dependencies = [], tasks = [] \<rparr>] \<rparr>"
    unfolding sel by simp
  show ?thesis
    by (intro conjI) (rule ex, rule di, rule cyc, rule tp, rule err, rule ex', rule acyc, rule ok)
qed

text \<open>
  Claim C2 as stated fails when two nodes share a name: the materialization X depends on
  X, a self-dependency, every dependency names a node, and \<^verbatim>\<open>build\<close> returns a graph,
  whatever the matcher. The traversal resolves X to the operation X, which was stored last
  and depends on nothing.
\<close>

theorem shadowed_self_dependency_counterexample:
  "dependencies_exist
     (translate (\<lambda>m r. [])
        \<lparr> CompiledGraph.projectConfig = (),
          materializations =
            [\<lparr> name = ''X'', dependencies = [''X''], pres = [], posts = [],
               Materialization.assertions = [] \<rparr>],
          operations = [\<lparr> name = ''X'', dependencies = [], statements = [] \<rparr>],
          CompiledGraph.assertions = [] \<rparr>
        \<lparr> RunConfig.nodes = [], includeDependencies = False \<rparr>) \<and>
   (''X'', ''X'') \<in> (dependency_graph
     (translate (\<lambda>m r. [])
        \<lparr> CompiledGraph.projectConfig = (),
          materializations =
            [\<lparr> name = ''X'', dependencies = [''X''], pres = [], posts = [],
               Materialization.assertions = [] \<rparr>],
          operations = [\<lparr> name = ''X'', dependencies = [], statements = [] \<rparr>],
          CompiledGraph.assertions = [] \<rparr>
        \<lparr> RunConfig.nodes = [], includeDependencies = False \<rparr>))\<^sup>+ \<and>
   (\<forall>mp. \<exists>g. build mp (\<lambda>cfg m r. [])
        \<lparr> CompiledGraph.projectConfig = (),
          materializations =
            [\<lparr> name = ''X'', dependencies = [''X''], pres = [], posts = [],
               Materialization.assertions = [] \<rparr>],
          operations = [\<lparr> name = ''X'', dependencies = [], statements = [] \<rparr>],
          CompiledGraph.assertions = [] \<rparr>
        \<lparr> RunConfig.nodes = [], includeDependencies = False \<rparr> = Inr g)"
proof (intro conjI allI)
  show "dependencies_exist
     (translate (\<lambda>m r. [])
        \<lparr> CompiledGraph.projectConfig = (),
          materializations =
            [\<lparr> name = ''X'', dependencies = [''X''], pres = [], posts = [],
               Materialization.assertions = [] \<rparr>],
          operations = [\<lparr> name = ''X'', dependencies = [], statements = [] \<rparr>],
          CompiledGraph.assertions = [] \<rparr>
        \<lparr> RunConfig.nodes = [], includeDependencies = False \<rparr>)"
    by (simp add: dependencies_exist_def translate_def buildOperation_def
        buildMaterialization_def)
next
  show "(''X'', ''X'') \<in> (dependency_graph
     (translate (\<lambda>m r. [])
        \<lparr> CompiledGraph.projectConfig = (),
          materializations =
            [\<lparr> name = ''X'', dependencies = [''X''], pres = [], posts = [],
               Materialization.assertions = [] \<rparr>],
          operations = [\<lparr> name = ''X'', dependencies = [], statements = [] \<rparr>],
          CompiledGraph.assertions = [] \<rparr>
        \<lparr> RunConfig.nodes = [], includeDependencies = False \<rparr>))\<^sup>+"
    by (rule r_into_trancl)
      (simp add: dependency_graph_def translate_def buildOperation_def
        buildMaterialization_def)
next
  fix mp :: Matcher
  have "validate
     (translate (\<lambda>m r. [])
        \<lparr> CompiledGraph.projectConfig = (),
          materializations =
            [\<lparr> name = ''X'', dependencies = [''X''], pres = [], posts = [],
               Materialization.assertions = [] \<rparr>],
          operations = [\<lparr> name = ''X'', dependencies = [], statements = [] \<rparr>],
          CompiledGraph.assertions = [] \<rparr>
        \<lparr> RunConfig.nodes = [], includeDependencies = False \<rparr>) = Inr ()"
    by code_simp
  then show "\<exists>g. build mp (\<lambda>cfg m r. [])
        \<lparr> CompiledGraph.projectConfig = (),
          materializations =
            [\<lparr> name = ''X'', dependencies = [''X''], pres = [], posts = [],
               Materialization.assertions = [] \<rparr>],
          operations = [\<lparr> name = ''X'', dependencies = [], statements = [] \<rparr>],
          CompiledGraph.assertions = [] \<rparr>
        \<lparr> RunConfig.nodes = [], includeDependencies = False \<rparr> = Inr g"
    unfolding build_Inr_iff by simp
qed
section \<open>Missing dependencies\<close>

text \<open>
  Claim C3. \<^verbatim>\<open>build\<close> throws exactly when validation fails, that is when some dependency
  names no node or the graph the traversal walks has a cycle. When a dependency names no
  node, no graph is returned: \<^verbatim>\<open>build\<close> throws the error whose message is \<^verbatim>\<open>Node\<close>, the
  name of the dependant node in double quotes, \<^verbatim>\<open>depends on\<close>, the missing name in double
  quotes, and \<^verbatim>\<open>which does not exist.\<close>, each part set off by one space, for the first node
  of the sequence that has a dependency naming no node and the first such dependency of
  that node. When every dependency names a node, no error with a message of this form is
  thrown, whatever the two names in it.
\<close>

theorem build_throws_iff_validation_fails:
  fixes mp :: Matcher and ac :: "'cfg \<Rightarrow> ('m, 'r) Adapter"
    and cg :: "('cfg, 'm) CompiledGraph" and rc :: "'r RunConfig_scheme"
  defines "allNodes \<equiv> translate (ac (CompiledGraph.projectConfig cg)) cg rc"
  shows "((\<exists>e. build mp ac cg rc = Inl e) \<longleftrightarrow>
            \<not> dependencies_exist allNodes \<or> (\<exists>c. (c, c) \<in> (resolved_edges allNodes)\<^sup>+)) \<and>
         (\<not> dependencies_exist allNodes \<longrightarrow>
            (\<exists>i < length allNodes. \<exists>q < length (dependencies (allNodes ! i)).
               (\<forall>i' < i. \<forall>d \<in> set (dependencies (allNodes ! i')).
                  d \<in> set (map name allNodes)) \<and>
               (\<forall>q' < q. dependencies (allNodes ! i) ! q' \<in> set (map name allNodes)) \<and>
               dependencies (allNodes ! i) ! q \<notin> set (map name allNodes) \<and>
               build mp ac cg rc =
                 Inl (Error (''Node '' @ [CHR 0x22] @ name (allNodes ! i) @ [CHR 0x22] @
                             '' depends on '' @ [CHR 0x22] @ dependencies (allNodes ! i) ! q @
                             [CHR 0x22] @ '' which does not exist.'')))) \<and>
         (dependencies_exist allNodes \<longrightarrow>
            (\<forall>n d. build mp ac cg rc \<noteq>
               Inl (Error (''Node '' @ [CHR 0x22] @ n @ [CHR 0x22] @ '' depends on '' @
                           [CHR 0x22] @ d @ [CHR 0x22] @ '' which does not exist.''))))"
proof (intro conjI impI allI)
  have "(\<exists>e. validate allNodes = Inl e) \<longleftrightarrow> validate allNodes \<noteq> Inr ()"
    by (cases "validate allNodes") auto
  then show "(\<exists>e. build mp ac cg rc = Inl e) \<longleftrightarrow>
      \<not> dependencies_exist allNodes \<or> (\<exists>c. (c, c) \<in> (resolved_edges allNodes)\<^sup>+)"
    unfolding build_Inl_iff allNodes_def [symmetric] validate_ok_iff by blast
next
  assume "\<not> dependencies_exist allNodes"
  from validate_first_missing [OF this]
  show "\<exists>i < length allNodes. \<exists>q < length (dependencies (allNodes ! i)).
          (\<forall>i' < i. \<forall>d \<in> set (dependencies (allNodes ! i')). d \<in> set (map name allNodes)) \<and>
          (\<forall>q' < q. dependencies (allNodes ! i) ! q' \<in> set (map name allNodes)) \<and>
          dependencies (allNodes ! i) ! q \<notin> set (map name allNodes) \<and>
          build mp ac cg rc =
            Inl (Error (''Node '' @ [CHR 0x22] @ name (allNodes ! i) @ [CHR 0x22] @
                        '' depends on '' @ [CHR 0x22] @ dependencies (allNodes ! i) ! q @
                        [CHR 0x22] @ '' which does not exist.''))"
    unfolding build_Inl_iff allNodes_def [symmetric] missing_message_def .
next
  fix n d
  assume ex: "dependencies_exist allNodes"
  show "build mp ac cg rc \<noteq>
      Inl (Error (''Node '' @ [CHR 0x22] @ n @ [CHR 0x22] @ '' depends on '' @
                  [CHR 0x22] @ d @ [CHR 0x22] @ '' which does not exist.''))"
  proof
    assume "build mp ac cg rc =
      Inl (Error (''Node '' @ [CHR 0x22] @ n @ [CHR 0x22] @ '' depends on '' @
                  [CHR 0x22] @ d @ [CHR 0x22] @ '' which does not exist.''))"
    then have "validate allNodes = Inl (Error (missing_message n d))"
      unfolding build_Inl_iff allNodes_def [symmetric] missing_message_def .
    from validate_error_chain [OF ex this] show False
      by (auto simp: first_char_differs)
  qed
qed

text \<open>
  The theorem at a graph with three dangling dependencies, whose error names the node A
  and the name Z (B, listed first, is the name of a node; Y and the dependency W of the
  node B come later), and at a graph without a dangling dependency.
\<close>

theorem build_throws_iff_validation_fails_witness:
  fixes ac :: "nat \<Rightarrow> (unit, unit) Adapter" and rc :: RunConfig
    and broken sound :: "(nat, unit) CompiledGraph"
  defines "ac \<equiv> \<lambda>cfg m r. []"
    and "rc \<equiv> \<lparr> RunConfig.nodes = [], includeDependencies = False \<rparr>"
    and "broken \<equiv> \<lparr> CompiledGraph.projectConfig = 0, materializations = [],
           operations = [\<lparr> name = ''A'', dependencies = [''B'', ''Z'', ''Y''], statements = [] \<rparr>,
                         \<lparr> name = ''B'', dependencies = [''W''], statements = [] \<rparr>],
           CompiledGraph.assertions = [] \<rparr>"
    and "sound \<equiv> \<lparr> CompiledGraph.projectConfig = 0, materializations = [],
           operations = [\<lparr> name = ''A'', dependencies = [''Z''], statements = [] \<rparr>,
                         \<lparr> name = ''Z'', dependencies = [], statements = [] \<rparr>],
           CompiledGraph.assertions = [] \<rparr>"
  shows "\<not> dependencies_exist (translate (ac (CompiledGraph.projectConfig broken)) broken rc) \<and>
         build matchPatterns ac broken rc =
           Inl (Error (''Node '' @ [CHR 0x22] @ ''A'' @ [CHR 0x22] @ '' depends on '' @
                       [CHR 0x22] @ ''Z'' @ [CHR 0x22] @ '' which does not exist.'')) \<and>
         dependencies_exist (translate (ac (CompiledGraph.projectConfig sound)) sound rc) \<and>
         build matchPatterns ac sound rc =
           Inr \<lparr> projectConfig = 0, runConfig = rc,
                 nodes = [\<lparr> name = ''A'', dependencies = [''Z''], tasks = [] \<rparr>,
                          \<lparr> name = ''Z'', dependencies = [], tasks = [] \<rparr>] \<rparr> \<and>
         build matchPatterns ac sound rc \<noteq>
           Inl (Error (''Node '' @ [CHR 0x22] @ ''A'' @ [CHR 0x22] @ '' depends on '' @
                       [CHR 0x22] @ ''Z'' @ [CHR 0x22] @ '' which does not exist.''))"
proof -
  let ?broken = "translate (ac (CompiledGraph.projectConfig broken)) broken rc"
  let ?sound = "translate (ac (CompiledGraph.projectConfig sound)) sound rc"
  have tb: "?broken = [\<lparr> name = ''A'', dependencies = [''B'', ''Z'', ''Y''], tasks = [] \<rparr>,
                       \<lparr> name = ''B'', dependencies = [''W''], tasks = [] \<rparr>]"
    unfolding ac_def broken_def by (simp add: translate_def buildOperation_def)
  have b: "\<not> dependencies_exist ?broken"
    unfolding tb by (simp add: dependencies_exist_def)
  have s: "dependencies_exist ?sound"
    unfolding ac_def rc_def sound_def
    by (simp add: dependencies_exist_def translate_def buildOperation_def)
  note first = build_throws_iff_validation_fails [of matchPatterns ac broken rc,
      THEN conjunct2, THEN conjunct1, rule_format, OF b]
  from first obtain i q where i: "i < length ?broken" and q: "q < length (dependencies (?broken ! i))"
    and bi: "\<forall>i' < i. \<forall>d \<in> set (dependencies (?broken ! i')). d \<in> set (map name ?broken)"
    and bq: "\<forall>q' < q. dependencies (?broken ! i) ! q' \<in> set (map name ?broken)"
    and mq: "dependencies (?broken ! i) ! q \<notin> set (map name ?broken)"
    and msg: "build matchPatterns ac broken rc =
                 Inl (Error (''Node '' @ [CHR 0x22] @ name (?broken ! i) @ [CHR 0x22] @
                             '' depends on '' @ [CHR 0x22] @ dependencies (?broken ! i) ! q @
                             [CHR 0x22] @ '' which does not exist.''))"
    by (elim exE conjE) (rule that)
  have deps0: "dependencies (?broken ! 0) = [''B'', ''Z'', ''Y'']"
    and names: "set (map name ?broken) = {''A'', ''B''}"
    unfolding tb by simp_all
  have i0: "i = 0"
  proof (rule ccontr)
    assume "i \<noteq> 0"
    then have "0 < i" by simp
    with bi have "\<forall>d \<in> set (dependencies (?broken ! 0)). d \<in> set (map name ?broken)"
      by blast
    then have "''Z'' \<in> set (map name ?broken)"
      unfolding deps0 by simp
    then show False unfolding names by simp
  qed
  from q have "q < 3" unfolding i0 deps0 by simp
  then have "q = 0 \<or> q = 1 \<or> q = 2" by arith
  moreover have "q \<noteq> 0"
  proof
    assume "q = 0"
    with mq have "''B'' \<notin> set (map name ?broken)" unfolding i0 deps0 by simp
    then show False unfolding names by simp
  qed
  moreover have "q \<noteq> 2"
  proof
    assume "q = 2"
    with bq have "dependencies (?broken ! i) ! 1 \<in> set (map name ?broken)" by simp
    then have "''Z'' \<in> set (map name ?broken)" unfolding i0 deps0 by simp
    then show False unfolding names by simp
  qed
  ultimately have "q = 1" by blast
  with msg have bm: "build matchPatterns ac broken rc =
           Inl (Error (''Node '' @ [CHR 0x22] @ ''A'' @ [CHR 0x22] @ '' depends on '' @
                       [CHR 0x22] @ ''Z'' @ [CHR 0x22] @ '' which does not exist.''))"
    unfolding i0 deps0 by (simp add: tb)
  have sm: "build matchPatterns ac sound rc \<noteq>
           Inl (Error (''Node '' @ [CHR 0x22] @ ''A'' @ [CHR 0x22] @ '' depends on '' @
                       [CHR 0x22] @ ''Z'' @ [CHR 0x22] @ '' which does not exist.''))"
    by (rule build_throws_iff_validation_fails [of matchPatterns ac sound rc,
          THEN conjunct2, THEN conjunct2, rule_format, OF s])
  have so: "build matchPatterns ac sound rc =
           Inr \<lparr> projectConfig = 0, runConfig = rc,
                 nodes = [\<lparr> name = ''A'', dependencies = [''Z''], tasks = [] \<rparr>,
                          \<lparr> name = ''Z'', dependencies = [], tasks = [] \<rparr>] \<rparr>"
    unfolding ac_def rc_def sound_def by code_simp
  show ?thesis by (intro conjI) (rule b, rule bm, rule s, rule so, rule sm)
qed

section \<open>Expansion to the transitive dependencies\<close>

text \<open>
  Claim C4. With \<^verbatim>\<open>includeDependencies\<close> set, the selection is the result of as many rounds
  of expansion as there are nodes, the names included after them are exactly the names
  reachable from the initially included ones along the edges the matcher resolves, and
  the returned nodes are the nodes with these names, in their original order.
\<close>

theorem expansion_reaches_closure:
  fixes mp :: Matcher and ac :: "'cfg \<Rightarrow> ('m, 'r) Adapter"
    and cg :: "('cfg, 'm) CompiledGraph" and rc :: "'r RunConfig_scheme"
  defines "allNodes \<equiv> translate (ac (CompiledGraph.projectConfig cg)) cg rc"
  defines "reachable \<equiv> (matched_edges mp allNodes)\<^sup>* `` set (initially_included mp allNodes rc)"
  assumes sel: "matcher_selects mp" and dep: "includeDependencies rc"
  shows "select mp allNodes rc =
           (expand_pass mp (RunConfig.nodes rc = []) allNodes ^^ length allNodes)
             \<lparr> allNodeNames = map name allNodes,
               includedNodeNames = initially_included mp allNodes rc,
               includedNodes = filter (\<lambda>node. name node \<in> set (initially_included mp allNodes rc))
                                 allNodes \<rparr> \<and>
         set (includedNodeNames (select mp allNodes rc)) = reachable \<and>
         (\<forall>g. build mp ac cg rc = Inr g \<longrightarrow>
            map name (nodes g) = filter (\<lambda>a. a \<in> reachable) (map name allNodes))"
proof (intro conjI allI impI)
  show "select mp allNodes rc =
           (expand_pass mp (RunConfig.nodes rc = []) allNodes ^^ length allNodes)
             \<lparr> allNodeNames = map name allNodes,
               includedNodeNames = initially_included mp allNodes rc,
               includedNodes = filter (\<lambda>node. name node \<in> set (initially_included mp allNodes rc))
                                 allNodes \<rparr>"
    unfolding select_unfold Let_def using dep by simp
next
  show r: "set (includedNodeNames (select mp allNodes rc)) = reachable"
    using select_ok [OF sel, of rc allNodes] dep unfolding reachable_def by simp
  fix g
  assume "build mp ac cg rc = Inr g"
  then have "nodes g = prune mp (select mp allNodes rc)"
    unfolding build_Inr_iff allNodes_def by simp
  moreover from select_ok [OF sel, of rc allNodes]
  have "selection_ok (RunConfig.nodes rc = []) allNodes (select mp allNodes rc)" by simp
  ultimately show "map name (nodes g) = filter (\<lambda>a. a \<in> reachable) (map name allNodes)"
    using prune_names r by metis
qed

text \<open>
  The theorem where A depends on B, C stands alone and A is selected: the graph returned
  holds A and B, and A keeps its dependency on B.
\<close>

theorem expansion_reaches_closure_witness:
  fixes ac :: "unit \<Rightarrow> (unit, unit) Adapter" and rc :: RunConfig
    and cg :: "(unit, unit) CompiledGraph"
  defines "ac \<equiv> \<lambda>cfg m r. []"
    and "rc \<equiv> \<lparr> RunConfig.nodes = [''A''], includeDependencies = True \<rparr>"
    and "cg \<equiv> \<lparr> CompiledGraph.projectConfig = (), materializations = [],
           operations = [\<lparr> name = ''A'', dependencies = [''B''], statements = [] \<rparr>,
                         \<lparr> name = ''B'', dependencies = [], statements = [] \<rparr>,
                         \<lparr> name = ''C'', dependencies = [], statements = [] \<rparr>],
           CompiledGraph.assertions = [] \<rparr>"
  shows "matcher_selects matchPatterns \<and> includeDependencies rc \<and>
         build matchPatterns ac cg rc =
           Inr \<lparr> projectConfig = (),
                 runConfig = \<lparr> RunConfig.nodes = [''A''], includeDependencies = True \<rparr>,
                 nodes = [\<lparr> name = ''A'', dependencies = [''B''], tasks = [] \<rparr>,
                          \<lparr> name = ''B'', dependencies = [], tasks = [] \<rparr>] \<rparr> \<and>
         (matched_edges matchPatterns (translate (ac (CompiledGraph.projectConfig cg)) cg rc))\<^sup>* ``
            set (initially_included matchPatterns
                   (translate (ac (CompiledGraph.projectConfig cg)) cg rc) rc)
           = {''A'', ''B''}"
proof -
  have d: "includeDependencies rc" unfolding rc_def by simp
  have b: "build matchPatterns ac cg rc =
           Inr \<lparr> projectConfig = (),
                 runConfig = \<lparr> RunConfig.nodes = [''A''], includeDependencies = True \<rparr>,
                 nodes = [\<lparr> name = ''A'', dependencies = [''B''], tasks = [] \<rparr>,
                          \<lparr> name = ''B'', dependencies = [], tasks = [] \<rparr>] \<rparr>"
    unfolding ac_def rc_def cg_def by code_simp
  have i: "includedNodeNames
             (select matchPatterns (translate (ac (CompiledGraph.projectConfig cg)) cg rc) rc)
           = [''A'', ''B'']"
    unfolding ac_def rc_def cg_def by code_simp
  from expansion_reaches_closure [OF matchPatterns_selects d, of ac cg] i
  have "(matched_edges matchPatterns (translate (ac (CompiledGraph.projectConfig cg)) cg rc))\<^sup>* ``
            set (initially_included matchPatterns
                   (translate (ac (CompiledGraph.projectConfig cg)) cg rc) rc)
           = {''A'', ''B''}"
    by auto
  with matchPatterns_selects d b show ?thesis by blast
qed
section \<open>Translation\<close>

text \<open>
  Claim C5 at a graph with one materialization, one operation and one assertion. The
  nodes come in this order, each with its entity's name and dependency list, and the
  materialization's tasks come in the order claimed: the pre, the adapter's task, the
  post, the embedded assertion. But the tasks that \<^verbatim>\<open>buildMaterialization\<close> writes for the
  pre and the post (lines 118 and 120) carry no type, where the claim has statement
  tasks, the tasks that \<^verbatim>\<open>buildOperation\<close> writes for the statements of an operation
  (line 134).
\<close>

theorem materialization_statement_tasks_untyped:
  fixes ad :: "(unit, unit) Adapter" and cg :: "(unit, unit) CompiledGraph" and rc :: RunConfig
  defines "ad \<equiv> \<lambda>m r. [statement_task ''create table t as select 1'']"
    and "cg \<equiv> \<lparr> CompiledGraph.projectConfig = (),
       materializations =
         [\<lparr> name = ''t'', dependencies = [''o''], pres = [''begin''], posts = [''commit''],
            Materialization.assertions = [''select 1 where false''] \<rparr>],
       operations = [\<lparr> name = ''o'', dependencies = [], statements = [''grant'', ''analyze''] \<rparr>],
       CompiledGraph.assertions = [\<lparr> name = ''a'', dependencies = [''t''], queries = [''q1'', ''q2''] \<rparr>] \<rparr>"
    and "rc \<equiv> \<lparr> RunConfig.nodes = [], includeDependencies = False \<rparr>"
  shows "translate ad cg rc =
           [\<lparr> name = ''t'', dependencies = [''o''],
              tasks = [\<lparr> type = None, statement = ''begin'' \<rparr>,
                       \<lparr> type = Some ''statement'', statement = ''create table t as select 1'' \<rparr>,
                       \<lparr> type = None, statement = ''commit'' \<rparr>,
                       \<lparr> type = Some ''assertion'', statement = ''select 1 where false'' \<rparr>] \<rparr>,
            \<lparr> name = ''o'', dependencies = [],
              tasks = [\<lparr> type = Some ''statement'', statement = ''grant'' \<rparr>,
                       \<lparr> type = Some ''statement'', statement = ''analyze'' \<rparr>] \<rparr>,
            \<lparr> name = ''a'', dependencies = [''t''],
              tasks = [\<lparr> type = Some ''assertion'', statement = ''q1'' \<rparr>,
                       \<lparr> type = Some ''assertion'', statement = ''q2'' \<rparr>] \<rparr>] \<and>
         tasks (translate ad cg rc ! 0) \<noteq>
           [statement_task ''begin'', statement_task ''create table t as select 1'',
            statement_task ''commit'', assertion_task ''select 1 where false''] \<and>
         tasks (translate ad cg rc ! 1) = [statement_task ''grant'', statement_task ''analyze'']"
  unfolding ad_def cg_def rc_def
  by (simp add: translate_def buildMaterialization_def buildOperation_def buildAssertion_def
      statement_task_def assertion_task_def)

section \<open>Default selection\<close>

lemma select_default:
  assumes "RunConfig.nodes rc = []" and "\<not> includeDependencies rc"
  shows "select mp allNodes rc =
           \<lparr> allNodeNames = map name allNodes, includedNodeNames = map name allNodes,
             includedNodes = allNodes \<rparr>"
proof -
  have "filter (\<lambda>node. name node \<in> set (map name allNodes)) allNodes = allNodes"
    by (rule filter_True) simp
  with assms show ?thesis
    unfolding select_def Let_def by simp
qed

lemma build_default:
  assumes "RunConfig.nodes rc = []" and "\<not> includeDependencies rc"
    and "build mp ac cg rc = Inr g"
  shows "nodes g =
           map (\<lambda>node. node\<lparr> dependencies :=
                  mp (dependencies node)
                    (map name (translate (ac (CompiledGraph.projectConfig cg)) cg rc)) \<rparr>)
             (translate (ac (CompiledGraph.projectConfig cg)) cg rc)"
  using assms(3) unfolding build_Inr_iff select_default [OF assms(1,2)] prune_def by simp

text \<open>
  Claim C6, as the code has it. With no selector and without expansion, a validated graph
  comes back with every translated node, in translation order (materializations,
  operations, assertions) and with its tasks. Each dependency list is replaced by the
  matcher's result against all node names. For a matcher that honours exact names, a
  list of exact names comes back as the node names that occur in it, in node order: the
  same names as a set, not the same list.
\<close>

theorem default_selection:
  fixes mp :: Matcher and ac :: "'cfg \<Rightarrow> ('m, 'r) Adapter"
    and cg :: "('cfg, 'm) CompiledGraph" and rc :: "'r RunConfig_scheme"
  defines "allNodes \<equiv> translate (ac (CompiledGraph.projectConfig cg)) cg rc"
  assumes none: "RunConfig.nodes rc = []" and nodep: "\<not> includeDependencies rc"
    and built: "build mp ac cg rc = Inr g"
  shows "map name (nodes g) =
           map name (materializations cg) @ map name (operations cg) @
           map name (CompiledGraph.assertions cg) \<and>
         map tasks (nodes g) = map tasks allNodes \<and>
         map dependencies (nodes g) =
           map (\<lambda>node. mp (dependencies node) (map name allNodes)) allNodes \<and>
         (matcher_exact mp \<longrightarrow>
            (\<forall>i < length allNodes.
               (\<forall>d \<in> set (dependencies (allNodes ! i)). CHR ''*'' \<notin> set d) \<longrightarrow>
               dependencies (nodes g ! i) =
                 filter (\<lambda>a. a \<in> set (dependencies (allNodes ! i))) (map name allNodes) \<and>
               set (dependencies (nodes g ! i)) = set (dependencies (allNodes ! i))))"
proof (intro conjI impI allI)
  note g = build_default [OF none nodep built, folded allNodes_def]
  have "map name (nodes g) = map name allNodes"
    unfolding g by simp
  then show "map name (nodes g) =
      map name (materializations cg) @ map name (operations cg) @
      map name (CompiledGraph.assertions cg)"
    unfolding allNodes_def translate_def
    by (simp add: buildMaterialization_def buildOperation_def buildAssertion_def comp_def)
  show "map tasks (nodes g) = map tasks allNodes"
    unfolding g by simp
  show deps: "map dependencies (nodes g) =
      map (\<lambda>node. mp (dependencies node) (map name allNodes)) allNodes"
    unfolding g by simp
  fix i
  assume exact: "matcher_exact mp" and i: "i < length allNodes"
    and plain: "\<forall>d \<in> set (dependencies (allNodes ! i)). CHR ''*'' \<notin> set d"
  from built have "validate allNodes = Inr ()"
    unfolding build_Inr_iff allNodes_def by simp
  then have "dependencies_exist allNodes" by (simp add: validate_ok_iff)
  with i have sub: "set (dependencies (allNodes ! i)) \<subseteq> set (map name allNodes)"
    unfolding dependencies_exist_def using nth_mem by blast
  from deps i have "dependencies (nodes g ! i) = mp (dependencies (allNodes ! i)) (map name allNodes)"
    by (metis length_map nth_map)
  with exact plain
  show eq: "dependencies (nodes g ! i) =
      filter (\<lambda>a. a \<in> set (dependencies (allNodes ! i))) (map name allNodes)"
    unfolding matcher_exact_def by simp
  from sub show "set (dependencies (nodes g ! i)) = set (dependencies (allNodes ! i))"
    unfolding eq by auto
qed

text \<open>The theorem where A lists its dependencies as C, B.\<close>

theorem default_selection_witness:
  fixes ac :: "unit \<Rightarrow> (unit, unit) Adapter" and rc :: RunConfig
    and cg :: "(unit, unit) CompiledGraph" and g :: "(unit, unit) ExecutionGraph"
  defines "ac \<equiv> \<lambda>cfg m r. []"
    and "rc \<equiv> \<lparr> RunConfig.nodes = [], includeDependencies = False \<rparr>"
    and "cg \<equiv> \<lparr> CompiledGraph.projectConfig = (), materializations = [],
           operations = [\<lparr> name = ''A'', dependencies = [''C'', ''B''], statements = [] \<rparr>,
                         \<lparr> name = ''B'', dependencies = [], statements = [] \<rparr>,
                         \<lparr> name = ''C'', dependencies = [], statements = [] \<rparr>],
           CompiledGraph.assertions = [] \<rparr>"
    and "g \<equiv> \<lparr> projectConfig = (),
                runConfig = \<lparr> RunConfig.nodes = [], includeDependencies = False \<rparr>,
                nodes = [\<lparr> name = ''A'', dependencies = [''B'', ''C''], tasks = [] \<rparr>,
                         \<lparr> name = ''B'', dependencies = [], tasks = [] \<rparr>,
                         \<lparr> name = ''C'', dependencies = [], tasks = [] \<rparr>] \<rparr>"
  shows "RunConfig.nodes rc = [] \<and> \<not> includeDependencies rc \<and> matcher_exact matchPatterns \<and>
         build matchPatterns ac cg rc = Inr g \<and>
         set (dependencies (nodes g ! 0)) = {''C'', ''B''}"
proof -
  have n: "RunConfig.nodes rc = []" and d: "\<not> includeDependencies rc"
    unfolding rc_def by simp_all
  have b: "build matchPatterns ac cg rc = Inr g"
    unfolding ac_def rc_def cg_def g_def by code_simp
  have t: "translate (ac (CompiledGraph.projectConfig cg)) cg rc =
             [\<lparr> name = ''A'', dependencies = [''C'', ''B''], tasks = [] \<rparr>,
              \<lparr> name = ''B'', dependencies = [], tasks = [] \<rparr>,
              \<lparr> name = ''C'', dependencies = [], tasks = [] \<rparr>]"
    unfolding ac_def cg_def by (simp add: translate_def buildOperation_def)
  let ?allNodes = "translate (ac (CompiledGraph.projectConfig cg)) cg rc"
  from default_selection [OF n d b] matchPatterns_exact
  have "\<forall>i < length ?allNodes.
          (\<forall>d \<in> set (dependencies (?allNodes ! i)). CHR ''*'' \<notin> set d) \<longrightarrow>
          set (dependencies (nodes g ! i)) = set (dependencies (?allNodes ! i))"
    by blast
  then have "(\<forall>d \<in> set (dependencies (?allNodes ! 0)). CHR ''*'' \<notin> set d) \<longrightarrow>
          set (dependencies (nodes g ! 0)) = set (dependencies (?allNodes ! 0))"
    unfolding t by simp
  then have "set (dependencies (nodes g ! 0)) = {''C'', ''B''}"
    unfolding t by simp
  with n d b matchPatterns_exact show ?thesis by blast
qed

text \<open>
  Claim C6 as stated fails: pruning against the full name set is not a no-op on the list.
  A declares C then B; the node that comes back lists B then C, the order of the nodes.
\<close>

theorem dependency_order_counterexample:
  "build matchPatterns (\<lambda>cfg m r. [])
     \<lparr> CompiledGraph.projectConfig = (), materializations = [],
       operations = [\<lparr> name = ''A'', dependencies = [''C'', ''B''], statements = [] \<rparr>,
                     \<lparr> name = ''B'', dependencies = [], statements = [] \<rparr>,
                     \<lparr> name = ''C'', dependencies = [], statements = [] \<rparr>],
       CompiledGraph.assertions = [] \<rparr>
     \<lparr> RunConfig.nodes = [], includeDependencies = False \<rparr>
   = Inr \<lparr> projectConfig = (),
           runConfig = \<lparr> RunConfig.nodes = [], includeDependencies = False \<rparr>,
           nodes = [\<lparr> name = ''A'', dependencies = [''B'', ''C''], tasks = [] \<rparr>,
                    \<lparr> name = ''B'', dependencies = [], tasks = [] \<rparr>,
                    \<lparr> name = ''C'', dependencies = [], tasks = [] \<rparr>] \<rparr> \<and>
   [''B'', ''C''] \<noteq> [''C'', ''B'']"
  by code_simp
section \<open>Determinism\<close>

lemma build_stored_outcome:
  assumes wf: "graph_refs g \<subseteq> {..<length h0}"
    and run: "build_stored mp ac h0 g rc = (outcome, h)"
  shows "(\<forall>e. outcome = Inl e \<longleftrightarrow> build mp ac (load_graph h0 g) rc = Inl e) \<and>
         (\<forall>cfg rc' ns. outcome = Inr (cfg, rc', ns) \<longrightarrow>
            build mp ac (load_graph h0 g) rc =
              Inr \<lparr> projectConfig = cfg, runConfig = rc', nodes = map (load_node h) ns \<rparr>)"
  using build_stored_agrees [OF wf run]
  by (cases outcome) (auto split: prod.splits)

text \<open>
  Claim C7, on the store model, where the arrays of the input lie at addresses of a store
  that the call reads and writes, and the adapter and the matcher are functions of their
  arguments. What a call of \<^verbatim>\<open>build\<close> throws or returns is what \<^verbatim>\<open>build\<close> of the value model
  gives for the graph that the store holds, so it depends on the store only through the
  contents of the graph's arrays. The call leaves the graph in the store as it was. Hence
  any other call with the same run configuration on a structurally identical graph,
  wherever its arrays lie and whatever else its store holds, the store left by the first
  call included, throws the same error or returns a graph with the same configuration
  and run configuration and structurally identical nodes: the same names and tasks in
  the same order, with equal pruned dependency lists.
\<close>

theorem build_deterministic:
  fixes mp :: Matcher and ac :: "'cfg \<Rightarrow> ('m, 'r) Adapter"
    and g :: "('cfg, 'm) StoredGraph" and rc :: "'r RunConfig_scheme"
  assumes wf: "graph_refs g \<subseteq> {..<length h0}"
    and run: "build_stored mp ac h0 g rc = (outcome, h)"
  shows "(\<forall>e. outcome = Inl e \<longleftrightarrow> build mp ac (load_graph h0 g) rc = Inl e) \<and>
         (\<forall>cfg rc1 ns. outcome = Inr (cfg, rc1, ns) \<longrightarrow>
            build mp ac (load_graph h0 g) rc =
              Inr \<lparr> projectConfig = cfg, runConfig = rc1, nodes = map (load_node h) ns \<rparr>) \<and>
         graph_refs g \<subseteq> {..<length h} \<and> load_graph h g = load_graph h0 g \<and>
         (\<forall>h0' (g' :: ('cfg, 'm) StoredGraph) outcome' h'.
            graph_refs g' \<subseteq> {..<length h0'} \<and> load_graph h0' g' = load_graph h0 g \<and>
            build_stored mp ac h0' g' rc = (outcome', h') \<longrightarrow>
            (\<forall>e. outcome = Inl e \<longleftrightarrow> outcome' = Inl e) \<and>
            (\<forall>cfg rc1 ns. outcome = Inr (cfg, rc1, ns) \<longrightarrow>
               (\<exists>ns'. outcome' = Inr (cfg, rc1, ns') \<and>
                      map (load_node h') ns' = map (load_node h) ns)))"
proof -
  note first = build_stored_outcome [OF wf run]
  have again: "(\<forall>e. outcome = Inl e \<longleftrightarrow> outcome' = Inl e) \<and>
      (\<forall>cfg rc1 ns. outcome = Inr (cfg, rc1, ns) \<longrightarrow>
         (\<exists>ns'. outcome' = Inr (cfg, rc1, ns') \<and>
                map (load_node h') ns' = map (load_node h) ns))"
    if h: "graph_refs g' \<subseteq> {..<length h0'} \<and> load_graph h0' g' = load_graph h0 g \<and>
           build_stored mp ac h0' g' rc = (outcome', h')"
    for h0' and g' :: "('cfg, 'm) StoredGraph" and outcome' h'
  proof -
    from h have wf': "graph_refs g' \<subseteq> {..<length h0'}"
      and same: "load_graph h0' g' = load_graph h0 g"
      and run': "build_stored mp ac h0' g' rc = (outcome', h')"
      by simp_all
    note second = build_stored_outcome [OF wf' run', unfolded same]
    have errors: "outcome = Inl e \<longleftrightarrow> outcome' = Inl e" for e
      using first second by blast
    have graphs: "\<exists>ns'. outcome' = Inr (cfg, rc1, ns') \<and>
        map (load_node h') ns' = map (load_node h) ns"
      if "outcome = Inr (cfg, rc1, ns)" for cfg rc1 ns
    proof -
      from that first
      have b: "build mp ac (load_graph h0 g) rc =
          Inr \<lparr> projectConfig = cfg, runConfig = rc1, nodes = map (load_node h) ns \<rparr>"
        by blast
      show ?thesis
      proof (cases outcome')
        case (Inl e)
        with second have "build mp ac (load_graph h0 g) rc = Inl e" by blast
        with b show ?thesis by simp
      next
        case (Inr r)
        obtain cfg' rc2 ns' where r: "r = (cfg', rc2, ns')" by (cases r)
        with Inr second
        have "build mp ac (load_graph h0 g) rc =
            Inr \<lparr> projectConfig = cfg', runConfig = rc2, nodes = map (load_node h') ns' \<rparr>"
          by blast
        with b have "cfg' = cfg" and "rc2 = rc1"
          and "map (load_node h') ns' = map (load_node h) ns"
          by simp_all
        with Inr r show ?thesis by simp
      qed
    qed
    from errors graphs show ?thesis by blast
  qed
  from build_stored_frame [OF run]
  have le: "length h0 \<le> length h" and tk: "take (length h0) h = h0" by blast+
  from wf le have inside: "graph_refs g \<subseteq> {..<length h}" by auto
  note kept = load_graph_frame [OF wf tk]
  show ?thesis
  proof (intro conjI allI impI)
    fix e show "outcome = Inl e \<longleftrightarrow> build mp ac (load_graph h0 g) rc = Inl e"
      using first by blast
  next
    fix cfg rc1 ns assume "outcome = Inr (cfg, rc1, ns)"
    with first show "build mp ac (load_graph h0 g) rc =
        Inr \<lparr> projectConfig = cfg, runConfig = rc1, nodes = map (load_node h) ns \<rparr>"
      by blast
  next
    show "graph_refs g \<subseteq> {..<length h}" by (rule inside)
  next
    show "load_graph h g = load_graph h0 g" by (rule kept)
  next
    fix h0' and g' :: "('cfg, 'm) StoredGraph" and outcome' h' e
    assume "graph_refs g' \<subseteq> {..<length h0'} \<and> load_graph h0' g' = load_graph h0 g \<and>
            build_stored mp ac h0' g' rc = (outcome', h')"
    from again [OF this] show "outcome = Inl e \<longleftrightarrow> outcome' = Inl e" by blast
  next
    fix h0' and g' :: "('cfg, 'm) StoredGraph" and outcome' h' cfg rc1 ns
    assume "graph_refs g' \<subseteq> {..<length h0'} \<and> load_graph h0' g' = load_graph h0 g \<and>
            build_stored mp ac h0' g' rc = (outcome', h')"
      and "outcome = Inr (cfg, rc1, ns)"
    with again [OF this(1)]
    show "\<exists>ns'. outcome' = Inr (cfg, rc1, ns') \<and>
        map (load_node h') ns' = map (load_node h) ns"
      by blast
  qed
qed

text \<open>
  The theorem at the graph where A depends on B and A is selected with its dependencies:
  the first call, a second call on the same graph in the store that the first call left,
  and a call on an identical graph laid out at other addresses of another store. The three
  calls put the pruned dependency lists at different addresses, with the same contents.
\<close>

theorem build_deterministic_witness:
  fixes ac :: "unit \<Rightarrow> (unit, unit) Adapter" and rc :: RunConfig
    and g g' :: "(unit, unit) StoredGraph" and h0 h h2 h0' h' :: heap
  defines "ac \<equiv> \<lambda>cfg m r. []"
    and "rc \<equiv> \<lparr> RunConfig.nodes = [''A''], includeDependencies = True \<rparr>"
    and "h0 \<equiv> [[''B''], [], [''s1''], []]"
    and "g \<equiv> \<lparr> config_of = (), materializations_of = [],
       operations_of = [\<lparr> name_of = ''A'', dependencies_at = 0, statements_at = 2 \<rparr>,
                        \<lparr> name_of = ''B'', dependencies_at = 1, statements_at = 3 \<rparr>],
       assertions_of = [] \<rparr>"
    and "h \<equiv> [[''B''], [], [''s1''], [], [''A'', ''B''], [''A'', ''B''], [''B''], []]"
    and "h2 \<equiv> [[''B''], [], [''s1''], [], [''A'', ''B''], [''A'', ''B''], [''B''], [],
                [''A'', ''B''], [''A'', ''B''], [''B''], []]"
    and "h0' \<equiv> [[''s1''], [], [''B'']]"
    and "g' \<equiv> \<lparr> config_of = (), materializations_of = [],
       operations_of = [\<lparr> name_of = ''A'', dependencies_at = 2, statements_at = 0 \<rparr>,
                        \<lparr> name_of = ''B'', dependencies_at = 1, statements_at = 1 \<rparr>],
       assertions_of = [] \<rparr>"
    and "h' \<equiv> [[''s1''], [], [''B''], [''A'', ''B''], [''A'', ''B''], [''B''], []]"
  shows "graph_refs g \<subseteq> {..<length h0} \<and>
         build_stored matchPatterns ac h0 g rc =
           (Inr ((), rc,
              [\<lparr> name_of = ''A'', dependencies_at = 6,
                 tasks_of = [statement_task ''s1''] \<rparr>,
               \<lparr> name_of = ''B'', dependencies_at = 7, tasks_of = [] \<rparr>]), h) \<and>
         graph_refs g \<subseteq> {..<length h} \<and> load_graph h g = load_graph h0 g \<and>
         build_stored matchPatterns ac h g rc =
           (Inr ((), rc,
              [\<lparr> name_of = ''A'', dependencies_at = 10,
                 tasks_of = [statement_task ''s1''] \<rparr>,
               \<lparr> name_of = ''B'', dependencies_at = 11, tasks_of = [] \<rparr>]), h2) \<and>
         map (load_node h2)
              [\<lparr> name_of = ''A'', dependencies_at = 10,
                 tasks_of = [statement_task ''s1''] \<rparr>,
               \<lparr> name_of = ''B'', dependencies_at = 11, tasks_of = [] \<rparr>] =
           map (load_node h)
              [\<lparr> name_of = ''A'', dependencies_at = 6,
                 tasks_of = [statement_task ''s1''] \<rparr>,
               \<lparr> name_of = ''B'', dependencies_at = 7, tasks_of = [] \<rparr>] \<and>
         graph_refs g' \<subseteq> {..<length h0'} \<and> load_graph h0' g' = load_graph h0 g \<and>
         build_stored matchPatterns ac h0' g' rc =
           (Inr ((), rc,
              [\<lparr> name_of = ''A'', dependencies_at = 5,
                 tasks_of = [statement_task ''s1''] \<rparr>,
               \<lparr> name_of = ''B'', dependencies_at = 6, tasks_of = [] \<rparr>]), h') \<and>
         map (load_node h')
              [\<lparr> name_of = ''A'', dependencies_at = 5,
                 tasks_of = [statement_task ''s1''] \<rparr>,
               \<lparr> name_of = ''B'', dependencies_at = 6, tasks_of = [] \<rparr>] =
           map (load_node h)
              [\<lparr> name_of = ''A'', dependencies_at = 6,
                 tasks_of = [statement_task ''s1''] \<rparr>,
               \<lparr> name_of = ''B'', dependencies_at = 7, tasks_of = [] \<rparr>]"
proof -
  let ?ns = "[\<lparr> name_of = ''A'', dependencies_at = 6, tasks_of = [statement_task ''s1''] \<rparr>,
              \<lparr> name_of = ''B'', dependencies_at = 7, tasks_of = [] \<rparr>]"
  let ?ns2 = "[\<lparr> name_of = ''A'', dependencies_at = 10, tasks_of = [statement_task ''s1''] \<rparr>,
               \<lparr> name_of = ''B'', dependencies_at = 11, tasks_of = [] \<rparr>]"
  let ?ns' = "[\<lparr> name_of = ''A'', dependencies_at = 5, tasks_of = [statement_task ''s1''] \<rparr>,
               \<lparr> name_of = ''B'', dependencies_at = 6, tasks_of = [] \<rparr>]"
  have wf: "graph_refs g \<subseteq> {..<length h0}"
    unfolding g_def h0_def by (simp add: graph_refs_def)
  have run: "build_stored matchPatterns ac h0 g rc = (Inr ((), rc, ?ns), h)"
    unfolding ac_def rc_def h0_def g_def h_def by code_simp
  note claim = build_deterministic [OF wf run]
  from claim have inside: "graph_refs g \<subseteq> {..<length h}"
    and kept: "load_graph h g = load_graph h0 g"
    by blast+
  have run2: "build_stored matchPatterns ac h g rc = (Inr ((), rc, ?ns2), h2)"
    unfolding ac_def rc_def h_def g_def h2_def by code_simp
  from inside kept run2
  have "graph_refs g \<subseteq> {..<length h} \<and> load_graph h g = load_graph h0 g \<and>
        build_stored matchPatterns ac h g rc = (Inr ((), rc, ?ns2), h2)"
    by (intro conjI)
  from claim [THEN conjunct2, THEN conjunct2, THEN conjunct2, THEN conjunct2, rule_format,
      OF this, THEN conjunct2, rule_format, OF refl]
  have same2: "map (load_node h2) ?ns2 = map (load_node h) ?ns" by simp
  have wf': "graph_refs g' \<subseteq> {..<length h0'}"
    unfolding g'_def h0'_def by (simp add: graph_refs_def)
  have eq: "load_graph h0' g' = load_graph h0 g"
    unfolding g'_def h0'_def g_def h0_def
    by (simp add: load_graph_def load_operation_def)
  have run': "build_stored matchPatterns ac h0' g' rc = (Inr ((), rc, ?ns'), h')"
    unfolding ac_def rc_def h0'_def g'_def h'_def by code_simp
  from wf' eq run'
  have "graph_refs g' \<subseteq> {..<length h0'} \<and> load_graph h0' g' = load_graph h0 g \<and>
        build_stored matchPatterns ac h0' g' rc = (Inr ((), rc, ?ns'), h')"
    by (intro conjI)
  from claim [THEN conjunct2, THEN conjunct2, THEN conjunct2, THEN conjunct2, rule_format,
      OF this, THEN conjunct2, rule_format, OF refl]
  have same': "map (load_node h') ?ns' = map (load_node h) ?ns" by simp
  show ?thesis
    by (intro conjI) (rule wf, rule run, rule inside, rule kept, rule run2, rule same2,
        rule wf', rule eq, rule run', rule same')
qed

section \<open>The input graph is left as it was\<close>

text \<open>
  Claim C8. Run on a store that holds the arrays of the input graph, \<^verbatim>\<open>build\<close> leaves every
  array that was there as it was, whether it throws or returns: each materialization,
  operation and assertion has the name, the dependency list and the statement or query
  lists it had. The nodes that come back refer to dependency arrays made by the call,
  none of them an array of the input. What the call returns or throws is what \<^verbatim>\<open>build\<close> of
  the value model gives for the graph that the store held.
\<close>

theorem build_leaves_input_unchanged:
  assumes wf: "graph_refs g \<subseteq> {..<length h0}"
    and run: "build_stored mp ac h0 g rc = (outcome, h)"
  shows "load_graph h g = load_graph h0 g \<and>
         (\<forall>r < length h0. h ! r = h0 ! r) \<and>
         (\<forall>cfg rc' ns. outcome = Inr (cfg, rc', ns) \<longrightarrow>
            (\<forall>node \<in> set ns. dependencies_at node \<notin> graph_refs g)) \<and>
         build mp ac (load_graph h0 g) rc =
           (case outcome of
              Inl e \<Rightarrow> Inl e
            | Inr (cfg, rc', ns) \<Rightarrow>
                Inr \<lparr> projectConfig = cfg, runConfig = rc', nodes = map (load_node h) ns \<rparr>)"
proof -
  from build_stored_frame [OF run]
  have tk: "take (length h0) h = h0"
    and fresh: "\<forall>cfg rc' ns. outcome = Inr (cfg, rc', ns) \<longrightarrow>
                  (\<forall>node \<in> set ns. length h0 \<le> dependencies_at node)"
    by blast+
  have "h ! r = h0 ! r" if "r < length h0" for r
  proof -
    from that have "take (length h0) h ! r = h ! r" by simp
    with tk show ?thesis by simp
  qed
  moreover from wf fresh
  have "\<forall>cfg rc' ns. outcome = Inr (cfg, rc', ns) \<longrightarrow>
          (\<forall>node \<in> set ns. dependencies_at node \<notin> graph_refs g)"
    by fastforce
  ultimately show ?thesis
    using load_graph_frame [OF wf tk] build_stored_agrees [OF wf run] by blast
qed

text \<open>
  The theorem on a store of four arrays: A depends on B, A is selected and expansion adds
  B by a push onto \<^verbatim>\<open>includedNodeNames\<close>. The call appends four arrays and changes none of
  the first four.
\<close>

theorem build_leaves_input_unchanged_witness:
  fixes ac :: "unit \<Rightarrow> (unit, unit) Adapter" and rc :: RunConfig
    and g :: "(unit, unit) StoredGraph" and h0 h :: heap
  defines "ac \<equiv> \<lambda>cfg m r. []"
    and "rc \<equiv> \<lparr> RunConfig.nodes = [''A''], includeDependencies = True \<rparr>"
    and "h0 \<equiv> [[''B''], [], [''s1''], []]"
    and "g \<equiv> \<lparr> config_of = (), materializations_of = [],
       operations_of = [\<lparr> name_of = ''A'', dependencies_at = 0, statements_at = 2 \<rparr>,
                        \<lparr> name_of = ''B'', dependencies_at = 1, statements_at = 3 \<rparr>],
       assertions_of = [] \<rparr>"
    and "h \<equiv> [[''B''], [], [''s1''], [], [''A'', ''B''], [''A'', ''B''], [''B''], []]"
  shows "graph_refs g \<subseteq> {..<length h0} \<and>
         build_stored matchPatterns ac h0 g rc =
           (Inr ((), rc,
              [\<lparr> name_of = ''A'', dependencies_at = 6,
                 tasks_of = [statement_task ''s1''] \<rparr>,
               \<lparr> name_of = ''B'', dependencies_at = 7, tasks_of = [] \<rparr>]), h) \<and>
         load_graph h g = load_graph h0 g"
proof -
  have wf: "graph_refs g \<subseteq> {..<length h0}"
    unfolding g_def h0_def by (simp add: graph_refs_def)
  have run: "build_stored matchPatterns ac h0 g rc =
           (Inr ((), rc,
              [\<lparr> name_of = ''A'', dependencies_at = 6,
                 tasks_of = [statement_task ''s1''] \<rparr>,
               \<lparr> name_of = ''B'', dependencies_at = 7, tasks_of = [] \<rparr>]), h)"
    unfolding ac_def rc_def h0_def g_def h_def by code_simp
  from build_leaves_input_unchanged [OF wf run] wf run show ?thesis by blast
qed

section \<open>Termination of the cycle check\<close>

lemma forEach_depth_total:
  "(\<And>x. x \<in> set xs \<Longrightarrow> g x = Some (f x)) \<Longrightarrow> forEach_depth g xs = Some (forEach f xs)"
  by (induction xs) (auto split: sum.splits)

lemma checkCircular_depth_enough:
  "card ({..<length allNodes} - set dependents) < depth \<Longrightarrow>
     checkCircular_depth depth allNodes x dependents = Some (checkCircular allNodes x dependents)"
proof (induction allNodes x dependents arbitrary: depth rule: checkCircular.induct)
  case (1 allNodes dependents)
  then obtain k where "depth = Suc k" by (cases depth) auto
  then show ?case by (simp add: checkCircular.simps)
next
  case (2 allNodes node dependents)
  from "2.prems" obtain k where depth: "depth = Suc k" by (cases depth) auto
  show ?case
  proof (cases "node \<in> set dependents \<or> \<not> node < length allNodes")
    case True
    then show ?thesis using depth by (auto simp: checkCircular.simps)
  next
    case False
    then have fresh: "node \<notin> set dependents" and inside: "node < length allNodes" by simp_all
    have "{..<length allNodes} - set (dependents @ [node])
            \<subset> {..<length allNodes} - set dependents"
      using fresh inside by auto
    then have "card ({..<length allNodes} - set (dependents @ [node]))
                 < card ({..<length allNodes} - set dependents)"
      by (intro psubset_card_mono) auto
    with "2.prems" depth have less: "card ({..<length allNodes} - set (dependents @ [node])) < k"
      by simp
    have "checkCircular_depth k allNodes (nodeNameMap allNodes d) (dependents @ [node])
            = Some (checkCircular allNodes (nodeNameMap allNodes d) (dependents @ [node]))"
      if "d \<in> set (dependencies (allNodes ! node))" for d
      using "2.IH" [OF fresh _ that less] inside by simp
    then have "forEach_depth
        (\<lambda>d. checkCircular_depth k allNodes (nodeNameMap allNodes d) (dependents @ [node]))
        (dependencies (allNodes ! node))
      = Some (forEach
        (\<lambda>d. checkCircular allNodes (nodeNameMap allNodes d) (dependents @ [node]))
        (dependencies (allNodes ! node)))"
      by (rule forEach_depth_total)
    with fresh inside depth show ?thesis by (simp add: checkCircular.simps)
  qed
qed

text \<open>
  Claim C9. The cycle check from any node of any graph, cyclic or not, returns: its
  recursion never nests deeper than the number of nodes plus one, because every nested
  call has one more node on the chain and a node already on the chain ends the descent.
  A loop over a finite dependency list at each level, and a bounded depth, make the
  traversal finite.
\<close>

theorem checkCircular_terminates:
  "checkCircular_depth (Suc (length allNodes)) allNodes (Some node) []
     = Some (checkCircular allNodes (Some node) [])"
  by (rule checkCircular_depth_enough) simp

text \<open>The bound at the cycle A, B, C, A: four frames, and the error comes out.\<close>

theorem checkCircular_terminates_witness:
  "checkCircular_depth 4
     [\<lparr> name = ''A'', dependencies = [''B''], tasks = [] \<rparr>,
      \<lparr> name = ''B'', dependencies = [''C''], tasks = [] \<rparr>,
      \<lparr> name = ''C'', dependencies = [''A''], tasks = [] \<rparr>] (Some 0) []
   = Some (Inl (Error ''Circular dependency detected in chain: [A > B > C > A]''))"
proof -
  have "checkCircular
     [\<lparr> name = ''A'', dependencies = [''B''], tasks = [] \<rparr>,
      \<lparr> name = ''B'', dependencies = [''C''], tasks = [] \<rparr>,
      \<lparr> name = ''C'', dependencies = [''A''], tasks = [] \<rparr>] (Some 0) []
    = Inl (Error ''Circular dependency detected in chain: [A > B > C > A]'')"
    by code_simp
  then show ?thesis
    using checkCircular_terminates
      [of "[\<lparr> name = ''A'', dependencies = [''B''], tasks = [] \<rparr>,
            \<lparr> name = ''B'', dependencies = [''C''], tasks = [] \<rparr>,
            \<lparr> name = ''C'', dependencies = [''A''], tasks = [] \<rparr>]" 0]
    by (simp add: eval_nat_numeral)
qed

section \<open>Nodes that share a name\<close>

lemma count_list_filter:
  "count_list (filter P xs) a = (if P a then count_list xs a else 0)"
  by (induction xs) auto

lemma resolved_edges_iff:
  "(i, j) \<in> resolved_edges allNodes \<longleftrightarrow>
     i < length allNodes \<and> j < length allNodes \<and>
     name (allNodes ! j) \<in> set (dependencies (allNodes ! i)) \<and>
     (\<forall>k. j < k \<and> k < length allNodes \<longrightarrow> name (allNodes ! k) \<noteq> name (allNodes ! j))"
  unfolding resolved_edges_def nodeNameMap_Some_iff by auto

text \<open>
  Claim C10, as the code has it. Nodes that share a name all stay in the translated
  sequence, and a collision of names is no error. Every node, shadowed or not, has its own
  dependencies checked and followed: whenever a dependency of any node names no node,
  \<^verbatim>\<open>build\<close> throws a missing-dependency error for a node and a name of that kind; and
  whenever every dependency names a node and a cycle can be reached from any node, \<^verbatim>\<open>build\<close>
  throws the circular-dependency error of the thrown path, which starts at that node or
  at an earlier one. These are the only errors of \<^verbatim>\<open>build\<close>, which returns exactly when
  every dependency names a node and the graph the traversal walks has no cycle. An edge
  of that graph leads from a node to the last node that bears the name of one of its
  dependencies, never to an earlier node of that name. Every node whose name is among the
  output names is in the output as often as in the translated sequence.
\<close>

theorem duplicate_names_shadowing:
  fixes mp :: Matcher and ac :: "'cfg \<Rightarrow> ('m, 'r) Adapter"
    and cg :: "('cfg, 'm) CompiledGraph" and rc :: "'r RunConfig_scheme"
  defines "allNodes \<equiv> translate (ac (CompiledGraph.projectConfig cg)) cg rc"
  shows "map name allNodes =
           map name (materializations cg) @ map name (operations cg) @
           map name (CompiledGraph.assertions cg) \<and>
         (\<forall>i d. i < length allNodes \<and> d \<in> set (dependencies (allNodes ! i)) \<and>
                d \<notin> set (map name allNodes) \<longrightarrow>
            (\<exists>n m. n < length allNodes \<and> m \<in> set (dependencies (allNodes ! n)) \<and>
               m \<notin> set (map name allNodes) \<and>
               build mp ac cg rc =
                 Inl (Error (''Node '' @ [CHR 0x22] @ name (allNodes ! n) @ [CHR 0x22] @
                       '' depends on '' @ [CHR 0x22] @ m @ [CHR 0x22] @
                       '' which does not exist.'')))) \<and>
         (\<forall>i c. dependencies_exist allNodes \<and> i < length allNodes \<and>
                (i, c) \<in> (resolved_edges allNodes)\<^sup>* \<and>
                (c, c) \<in> (resolved_edges allNodes)\<^sup>+ \<longrightarrow>
            (\<exists>p. thrown_path allNodes p \<and> hd p \<le> i \<and>
               build mp ac cg rc =
                 Inl (Error (''Circular dependency detected in chain: ['' @
                       concat (map (\<lambda>k. name (allNodes ! k) @ '' > '') (butlast p)) @
                       name (allNodes ! last p) @ '']'')))) \<and>
         (\<forall>e. build mp ac cg rc = Inl e \<longrightarrow>
            (\<exists>n m. e = Error (''Node '' @ [CHR 0x22] @ n @ [CHR 0x22] @
                       '' depends on '' @ [CHR 0x22] @ m @ [CHR 0x22] @
                       '' which does not exist.'')) \<or>
            (\<exists>p. thrown_path allNodes p \<and>
               e = Error (''Circular dependency detected in chain: ['' @
                       concat (map (\<lambda>k. name (allNodes ! k) @ '' > '') (butlast p)) @
                       name (allNodes ! last p) @ '']''))) \<and>
         ((\<exists>g. build mp ac cg rc = Inr g) \<longleftrightarrow>
            dependencies_exist allNodes \<and> (\<forall>c. (c, c) \<notin> (resolved_edges allNodes)\<^sup>+)) \<and>
         (\<forall>i j. (i, j) \<in> resolved_edges allNodes \<longleftrightarrow>
            i < length allNodes \<and> j < length allNodes \<and>
            name (allNodes ! j) \<in> set (dependencies (allNodes ! i)) \<and>
            (\<forall>k. j < k \<and> k < length allNodes \<longrightarrow>
               name (allNodes ! k) \<noteq> name (allNodes ! j))) \<and>
         (\<forall>g a. matcher_selects mp \<and> build mp ac cg rc = Inr g \<and>
                a \<in> set (map name (nodes g)) \<longrightarrow>
            count_list (map name (nodes g)) a = count_list (map name allNodes) a)"
proof -
  let ?name = "\<lambda>k. name (allNodes ! k)"
  let ?E = "resolved_edges allNodes"
  have same: "build mp ac cg rc = Inl e \<longleftrightarrow> validate allNodes = Inl e" for e
    unfolding build_Inl_iff allNodes_def ..
  have missing: "\<exists>n m. n < length allNodes \<and> m \<in> set (dependencies (allNodes ! n)) \<and>
      m \<notin> set (map name allNodes) \<and>
      build mp ac cg rc =
        Inl (Error (''Node '' @ [CHR 0x22] @ ?name n @ [CHR 0x22] @
              '' depends on '' @ [CHR 0x22] @ m @ [CHR 0x22] @ '' which does not exist.''))"
    if "\<not> dependencies_exist allNodes"
  proof -
    from validate_first_missing [OF that] obtain n q where n: "n < length allNodes"
      and q: "q < length (dependencies (allNodes ! n))"
      and absent: "dependencies (allNodes ! n) ! q \<notin> set (map name allNodes)"
      and v: "validate allNodes =
                Inl (Error (missing_message (?name n) (dependencies (allNodes ! n) ! q)))"
      by (elim exE conjE) (rule that)
    let ?m = "dependencies (allNodes ! n) ! q"
    from q have m: "?m \<in> set (dependencies (allNodes ! n))" by (rule nth_mem)
    from v have b: "build mp ac cg rc =
        Inl (Error (''Node '' @ [CHR 0x22] @ ?name n @ [CHR 0x22] @
              '' depends on '' @ [CHR 0x22] @ ?m @ [CHR 0x22] @ '' which does not exist.''))"
      unfolding same missing_message_def .
    show ?thesis
      by (rule exI [of _ n], rule exI [of _ ?m]) (intro conjI, rule n, rule m, rule absent, rule b)
  qed
  have circular: "\<exists>p. thrown_path allNodes p \<and>
      e = Error (''Circular dependency detected in chain: ['' @
            concat (map (\<lambda>k. ?name k @ '' > '') (butlast p)) @ ?name (last p) @ '']'')"
    if exist: "dependencies_exist allNodes" and v: "validate allNodes = Inl e" for e
  proof -
    from validate_thrown_path [OF exist v] obtain p where p: "thrown_path allNodes p"
      and e: "e = Error (circular_message (map ?name (butlast p)) (?name (last p)))"
      by (elim exE conjE) (rule that)
    from p have "butlast p \<noteq> []" unfolding thrown_path_def by auto
    from circular_message_text [OF this, of ?name "?name (last p)"]
    have msg: "e = Error (''Circular dependency detected in chain: ['' @
            concat (map (\<lambda>k. ?name k @ '' > '') (butlast p)) @ ?name (last p) @ '']'')"
      unfolding e by (rule arg_cong)
    show ?thesis by (rule exI [of _ p]) (intro conjI, rule p, rule msg)
  qed
  show ?thesis
  proof (intro conjI allI impI)
    show "map name allNodes =
        map name (materializations cg) @ map name (operations cg) @
        map name (CompiledGraph.assertions cg)"
      unfolding allNodes_def translate_def
      by (simp add: buildMaterialization_def buildOperation_def buildAssertion_def comp_def)
  next
    fix i d
    assume "i < length allNodes \<and> d \<in> set (dependencies (allNodes ! i)) \<and>
            d \<notin> set (map name allNodes)"
    then have "\<not> dependencies_exist allNodes"
      unfolding dependencies_exist_def using nth_mem by blast
    then show "\<exists>n m. n < length allNodes \<and> m \<in> set (dependencies (allNodes ! n)) \<and>
      m \<notin> set (map name allNodes) \<and>
      build mp ac cg rc =
        Inl (Error (''Node '' @ [CHR 0x22] @ ?name n @ [CHR 0x22] @
              '' depends on '' @ [CHR 0x22] @ m @ [CHR 0x22] @ '' which does not exist.''))"
      by (rule missing)
  next
    fix i c
    assume h: "dependencies_exist allNodes \<and> i < length allNodes \<and>
               (i, c) \<in> ?E\<^sup>* \<and> (c, c) \<in> ?E\<^sup>+"
    then have exist: "dependencies_exist allNodes" and reach: "(i, c) \<in> ?E\<^sup>*"
      and cyc: "(c, c) \<in> ?E\<^sup>+"
      by simp_all
    from validate_finds_cycle [OF exist cyc] obtain e where v: "validate allNodes = Inl e" ..
    from circular [OF exist v] obtain p where p: "thrown_path allNodes p"
      and msg: "e = Error (''Circular dependency detected in chain: ['' @
            concat (map (\<lambda>k. ?name k @ '' > '') (butlast p)) @ ?name (last p) @ '']'')"
      by (elim exE conjE) (rule that)
    have first: "hd p \<le> i"
    proof (rule ccontr)
      assume "\<not> hd p \<le> i"
      with p have "passes allNodes [] i" unfolding thrown_path_def by simp
      with reach cyc show False unfolding passes_def by blast
    qed
    from v have b: "build mp ac cg rc =
        Inl (Error (''Circular dependency detected in chain: ['' @
            concat (map (\<lambda>k. ?name k @ '' > '') (butlast p)) @ ?name (last p) @ '']''))"
      unfolding same msg .
    show "\<exists>p. thrown_path allNodes p \<and> hd p \<le> i \<and>
        build mp ac cg rc =
          Inl (Error (''Circular dependency detected in chain: ['' @
            concat (map (\<lambda>k. ?name k @ '' > '') (butlast p)) @ ?name (last p) @ '']''))"
      by (rule exI [of _ p]) (intro conjI, rule p, rule first, rule b)
  next
    fix e
    assume "build mp ac cg rc = Inl e"
    then have v: "validate allNodes = Inl e" unfolding same .
    show "(\<exists>n m. e = Error (''Node '' @ [CHR 0x22] @ n @ [CHR 0x22] @
                       '' depends on '' @ [CHR 0x22] @ m @ [CHR 0x22] @
                       '' which does not exist.'')) \<or>
          (\<exists>p. thrown_path allNodes p \<and>
             e = Error (''Circular dependency detected in chain: ['' @
                   concat (map (\<lambda>k. ?name k @ '' > '') (butlast p)) @ ?name (last p) @ '']''))"
    proof (cases "dependencies_exist allNodes")
      case True
      from circular [OF True v] show ?thesis by (rule disjI2)
    next
      case False
      from missing [OF False] obtain n m where "build mp ac cg rc =
        Inl (Error (''Node '' @ [CHR 0x22] @ ?name n @ [CHR 0x22] @
              '' depends on '' @ [CHR 0x22] @ m @ [CHR 0x22] @ '' which does not exist.''))"
        by (elim exE conjE) (rule that)
      with \<open>build mp ac cg rc = Inl e\<close>
      have "e = Error (''Node '' @ [CHR 0x22] @ ?name n @ [CHR 0x22] @
              '' depends on '' @ [CHR 0x22] @ m @ [CHR 0x22] @ '' which does not exist.'')"
        by (simp only: sum.inject)
      then have "\<exists>n m. e = Error (''Node '' @ [CHR 0x22] @ n @ [CHR 0x22] @
                       '' depends on '' @ [CHR 0x22] @ m @ [CHR 0x22] @
                       '' which does not exist.'')"
        by (intro exI)
      then show ?thesis by (rule disjI1)
    qed
  next
    show "(\<exists>g. build mp ac cg rc = Inr g) \<longleftrightarrow>
        dependencies_exist allNodes \<and> (\<forall>c. (c, c) \<notin> ?E\<^sup>+)"
      unfolding build_Inr_iff allNodes_def [symmetric] validate_ok_iff by simp
  next
    fix i j
    show "(i, j) \<in> resolved_edges allNodes \<longleftrightarrow>
        i < length allNodes \<and> j < length allNodes \<and>
        name (allNodes ! j) \<in> set (dependencies (allNodes ! i)) \<and>
        (\<forall>k. j < k \<and> k < length allNodes \<longrightarrow> name (allNodes ! k) \<noteq> name (allNodes ! j))"
      by (rule resolved_edges_iff)
  next
    fix g a
    assume h: "matcher_selects mp \<and> build mp ac cg rc = Inr g \<and>
               a \<in> set (map name (nodes g))"
    then have sel: "matcher_selects mp" and a: "a \<in> set (map name (nodes g))"
      by blast+
    from h have g: "nodes g = prune mp (select mp allNodes rc)"
      unfolding build_Inr_iff allNodes_def by simp
    from select_ok [OF sel, of rc allNodes]
    have ok: "selection_ok (RunConfig.nodes rc = []) allNodes (select mp allNodes rc)" by simp
    from a have "a \<in> set (includedNodeNames (select mp allNodes rc))"
      unfolding g prune_names_set [OF ok] .
    then show "count_list (map name (nodes g)) a = count_list (map name allNodes) a"
      unfolding g prune_names [OF ok] count_list_filter by simp
  qed
qed

text \<open>
  The theorem at three graphs with a materialization X and an operation X. In the first,
  both are selected by the name X, and the dependency of Y on X leads to the operation,
  the later of the two. In the second, the materialization X, which is shadowed, depends
  on Z, which is no node, and the build fails for it. In the third, the materialization X
  depends on Y, which depends on itself, and the reported chain starts at X.
\<close>

theorem duplicate_names_shadowing_witness:
  fixes ac :: "unit \<Rightarrow> (unit, unit) Adapter" and rc :: RunConfig
    and cg dangling looping :: "(unit, unit) CompiledGraph"
    and g :: "(unit, unit) ExecutionGraph"
  defines "ac \<equiv> \<lambda>cfg m r. []"
    and "rc \<equiv> \<lparr> RunConfig.nodes = [''X''], includeDependencies = False \<rparr>"
    and "cg \<equiv> \<lparr> CompiledGraph.projectConfig = (),
           materializations = [\<lparr> name = ''X'', dependencies = [''Y''], pres = [], posts = [],
                                 Materialization.assertions = [] \<rparr>,
                               \<lparr> name = ''Y'', dependencies = [''X''], pres = [], posts = [],
                                 Materialization.assertions = [] \<rparr>],
           operations = [\<lparr> name = ''X'', dependencies = [], statements = [''s''] \<rparr>],
           CompiledGraph.assertions = [] \<rparr>"
    and "g \<equiv> \<lparr> projectConfig = (),
                runConfig = \<lparr> RunConfig.nodes = [''X''], includeDependencies = False \<rparr>,
                nodes = [\<lparr> name = ''X'', dependencies = [], tasks = [] \<rparr>,
                         \<lparr> name = ''X'', dependencies = [],
                           tasks = [statement_task ''s''] \<rparr>] \<rparr>"
    and "dangling \<equiv> \<lparr> CompiledGraph.projectConfig = (),
           materializations = [\<lparr> name = ''X'', dependencies = [''Z''], pres = [], posts = [],
                                 Materialization.assertions = [] \<rparr>],
           operations = [\<lparr> name = ''X'', dependencies = [], statements = [] \<rparr>],
           CompiledGraph.assertions = [] \<rparr>"
    and "looping \<equiv> \<lparr> CompiledGraph.projectConfig = (),
           materializations = [\<lparr> name = ''X'', dependencies = [''Y''], pres = [], posts = [],
                                 Materialization.assertions = [] \<rparr>,
                               \<lparr> name = ''Y'', dependencies = [''Y''], pres = [], posts = [],
                                 Materialization.assertions = [] \<rparr>],
           operations = [\<lparr> name = ''X'', dependencies = [], statements = [] \<rparr>],
           CompiledGraph.assertions = [] \<rparr>"
  shows "matcher_selects matchPatterns \<and> build matchPatterns ac cg rc = Inr g \<and>
         ''X'' \<in> set (map name (nodes g)) \<and>
         count_list (map name (translate (ac (CompiledGraph.projectConfig cg)) cg rc)) ''X'' = 2 \<and>
         dependencies_exist (translate (ac (CompiledGraph.projectConfig cg)) cg rc) \<and>
         (1, 2) \<in> resolved_edges (translate (ac (CompiledGraph.projectConfig cg)) cg rc) \<and>
         ''Z'' \<in> set (dependencies
           (translate (ac (CompiledGraph.projectConfig dangling)) dangling rc ! 0)) \<and>
         ''Z'' \<notin> set (map name
           (translate (ac (CompiledGraph.projectConfig dangling)) dangling rc)) \<and>
         build matchPatterns ac dangling rc =
           Inl (Error (''Node '' @ [CHR 0x22] @ ''X'' @ [CHR 0x22] @ '' depends on '' @
                 [CHR 0x22] @ ''Z'' @ [CHR 0x22] @ '' which does not exist.'')) \<and>
         dependencies_exist
           (translate (ac (CompiledGraph.projectConfig looping)) looping rc) \<and>
         (0, 1) \<in> (resolved_edges
           (translate (ac (CompiledGraph.projectConfig looping)) looping rc))\<^sup>* \<and>
         (1, 1) \<in> (resolved_edges
           (translate (ac (CompiledGraph.projectConfig looping)) looping rc))\<^sup>+ \<and>
         thrown_path (translate (ac (CompiledGraph.projectConfig looping)) looping rc)
           [0, 1, 1] \<and>
         build matchPatterns ac looping rc =
           Inl (Error ''Circular dependency detected in chain: [X > Y > Y]'')"
proof -
  let ?allNodes = "translate (ac (CompiledGraph.projectConfig cg)) cg rc"
  let ?dang = "translate (ac (CompiledGraph.projectConfig dangling)) dangling rc"
  let ?loop = "translate (ac (CompiledGraph.projectConfig looping)) looping rc"
  have b: "build matchPatterns ac cg rc = Inr g"
    unfolding ac_def rc_def cg_def g_def by code_simp
  have x: "''X'' \<in> set (map name (nodes g))"
    unfolding g_def by simp
  have t: "?allNodes = [\<lparr> name = ''X'', dependencies = [''Y''], tasks = [] \<rparr>,
                        \<lparr> name = ''Y'', dependencies = [''X''], tasks = [] \<rparr>,
                        \<lparr> name = ''X'', dependencies = [], tasks = [statement_task ''s''] \<rparr>]"
    unfolding ac_def cg_def
    by (simp add: translate_def buildMaterialization_def buildOperation_def statement_task_def)
  note claim = duplicate_names_shadowing [of ac cg rc matchPatterns]
  from claim matchPatterns_selects b x
  have "count_list (map name (nodes g)) ''X'' = count_list (map name ?allNodes) ''X''"
    by blast
  then have c: "count_list (map name ?allNodes) ''X'' = 2"
    unfolding g_def by simp
  from claim b have e: "dependencies_exist ?allNodes" by blast
  from claim have "(1, 2) \<in> resolved_edges ?allNodes \<longleftrightarrow>
      1 < length ?allNodes \<and> 2 < length ?allNodes \<and>
      name (?allNodes ! 2) \<in> set (dependencies (?allNodes ! 1)) \<and>
      (\<forall>k. 2 < k \<and> k < length ?allNodes \<longrightarrow> name (?allNodes ! k) \<noteq> name (?allNodes ! 2))"
    by blast
  then have r: "(1, 2) \<in> resolved_edges ?allNodes"
    unfolding t by simp

  have td: "?dang = [\<lparr> name = ''X'', dependencies = [''Z''], tasks = [] \<rparr>,
                     \<lparr> name = ''X'', dependencies = [], tasks = [] \<rparr>]"
    unfolding ac_def dangling_def
    by (simp add: translate_def buildMaterialization_def buildOperation_def)
  have z: "''Z'' \<in> set (dependencies (?dang ! 0))" unfolding td by simp
  have nz: "''Z'' \<notin> set (map name ?dang)" unfolding td by simp
  have "0 < length ?dang" unfolding td by simp
  with z nz have "0 < length ?dang \<and> ''Z'' \<in> set (dependencies (?dang ! 0)) \<and>
      ''Z'' \<notin> set (map name ?dang)"
    by (intro conjI)
  from duplicate_names_shadowing [of ac dangling rc matchPatterns,
      THEN conjunct2, THEN conjunct1, rule_format, OF this]
  obtain n m where n: "n < length ?dang" and m: "m \<in> set (dependencies (?dang ! n))"
    and bd: "build matchPatterns ac dangling rc =
           Inl (Error (''Node '' @ [CHR 0x22] @ name (?dang ! n) @ [CHR 0x22] @
                 '' depends on '' @ [CHR 0x22] @ m @ [CHR 0x22] @ '' which does not exist.''))"
    by (elim exE conjE) (rule that)
  from n have "n = 0 \<or> n = 1" unfolding td by auto
  then have "name (?dang ! n) = ''X'' \<and> m = ''Z''"
  proof
    assume "n = 0"
    with m show ?thesis unfolding td by simp
  next
    assume "n = 1"
    with m show ?thesis unfolding td by simp
  qed
  then have d: "build matchPatterns ac dangling rc =
           Inl (Error (''Node '' @ [CHR 0x22] @ ''X'' @ [CHR 0x22] @ '' depends on '' @
                 [CHR 0x22] @ ''Z'' @ [CHR 0x22] @ '' which does not exist.''))"
    using bd by (simp only:)

  have tl: "?loop = [\<lparr> name = ''X'', dependencies = [''Y''], tasks = [] \<rparr>,
                     \<lparr> name = ''Y'', dependencies = [''Y''], tasks = [] \<rparr>,
                     \<lparr> name = ''X'', dependencies = [], tasks = [] \<rparr>]"
    unfolding ac_def looping_def
    by (simp add: translate_def buildMaterialization_def buildOperation_def)
  have el: "dependencies_exist ?loop"
    unfolding tl by (simp add: dependencies_exist_def)
  have lookY: "nodeNameMap ?loop ''Y'' = Some 1"
    unfolding tl by (simp add: nodeNameMap_def upt_rec)
  have e01: "(0, 1) \<in> resolved_edges ?loop" and e11: "(1, 1) \<in> resolved_edges ?loop"
    unfolding resolved_edges_def using lookY unfolding tl by simp_all
  from e01 have reach: "(0, 1) \<in> (resolved_edges ?loop)\<^sup>*" by (rule r_into_rtrancl)
  from e11 have cyc: "(1, 1) \<in> (resolved_edges ?loop)\<^sup>+" by (rule r_into_trancl)
  have steps: "descends ?loop [0, 1, 1] k" if "Suc k < 3" for k
  proof -
    from that consider "k = 0" | "k = 1" by linarith
    then show ?thesis
    proof cases
      case 1
      have "dependencies (?loop ! 0) = [''Y'']" unfolding tl by simp
      with lookY 1 show ?thesis unfolding descends_def by simp
    next
      case 2
      have "dependencies (?loop ! 1) = [''Y'']" unfolding tl by simp
      with lookY 2 show ?thesis unfolding descends_def by simp
    qed
  qed
  have "length ?loop = 3" unfolding tl by simp
  with steps have tp: "thrown_path ?loop [0, 1, 1]"
    unfolding thrown_path_def by simp
  have "0 < length ?loop" unfolding tl by simp
  with el reach cyc have "dependencies_exist ?loop \<and> 0 < length ?loop \<and>
      (0, 1) \<in> (resolved_edges ?loop)\<^sup>* \<and> (1, 1) \<in> (resolved_edges ?loop)\<^sup>+"
    by (intro conjI)
  from duplicate_names_shadowing [of ac looping rc matchPatterns,
      THEN conjunct2, THEN conjunct2, THEN conjunct1, rule_format, OF this]
  obtain p where p: "thrown_path ?loop p"
    and bl: "build matchPatterns ac looping rc =
           Inl (Error (''Circular dependency detected in chain: ['' @
                 concat (map (\<lambda>k. name (?loop ! k) @ '' > '') (butlast p)) @
                 name (?loop ! last p) @ '']''))"
    by (elim exE conjE) (rule that)
  from thrown_path_unique [OF p tp] have "p = [0, 1, 1]" .
  with bl have l: "build matchPatterns ac looping rc =
           Inl (Error ''Circular dependency detected in chain: [X > Y > Y]'')"
    unfolding tl by simp
  show ?thesis
    by (intro conjI) (rule matchPatterns_selects, rule b, rule x, rule c, rule e, rule r,
        rule z, rule nz, rule d, rule el, rule reach, rule cyc, rule tp, rule l)
qed

text \<open>
  Claim C10 as stated fails in its last clause: the dependencies of a shadowed node are
  checked and followed too. In the first graph the name X resolves to the operation X,
  which depends on nothing, and the build fails on the dependency Z of the materialization
  X. In the second, the reported chain goes from the materialization X to its dependency Y,
  though X resolves to the operation X there as well. Both hold for every matcher.
\<close>

theorem shadowed_dependencies_counterexample:
  "nodeNameMap
     (translate (\<lambda>m r. [])
        \<lparr> CompiledGraph.projectConfig = (),
          materializations =
            [\<lparr> name = ''X'', dependencies = [''Z''], pres = [], posts = [],
               Materialization.assertions = [] \<rparr>],
          operations = [\<lparr> name = ''X'', dependencies = [], statements = [] \<rparr>],
          CompiledGraph.assertions = [] \<rparr>
        \<lparr> RunConfig.nodes = [], includeDependencies = False \<rparr>) ''X'' = Some 1 \<and>
   dependencies
     (translate (\<lambda>m r. [])
        \<lparr> CompiledGraph.projectConfig = (),
          materializations =
            [\<lparr> name = ''X'', dependencies = [''Z''], pres = [], posts = [],
               Materialization.assertions = [] \<rparr>],
          operations = [\<lparr> name = ''X'', dependencies = [], statements = [] \<rparr>],
          CompiledGraph.assertions = [] \<rparr>
        \<lparr> RunConfig.nodes = [], includeDependencies = False \<rparr> ! 1) = [] \<and>
   (\<forall>mp. build mp (\<lambda>cfg m r. [])
        \<lparr> CompiledGraph.projectConfig = (),
          materializations =
            [\<lparr> name = ''X'', dependencies = [''Z''], pres = [], posts = [],
               Materialization.assertions = [] \<rparr>],
          operations = [\<lparr> name = ''X'', dependencies = [], statements = [] \<rparr>],
          CompiledGraph.assertions = [] \<rparr>
        \<lparr> RunConfig.nodes = [], includeDependencies = False \<rparr> =
      Inl (Error (''Node '' @ [CHR 0x22] @ ''X'' @ [CHR 0x22] @ '' depends on '' @
            [CHR 0x22] @ ''Z'' @ [CHR 0x22] @ '' which does not exist.''))) \<and>
   nodeNameMap
     (translate (\<lambda>m r. [])
        \<lparr> CompiledGraph.projectConfig = (),
          materializations =
            [\<lparr> name = ''X'', dependencies = [''Y''], pres = [], posts = [],
               Materialization.assertions = [] \<rparr>,
             \<lparr> name = ''Y'', dependencies = [''Y''], pres = [], posts = [],
               Materialization.assertions = [] \<rparr>],
          operations = [\<lparr> name = ''X'', dependencies = [], statements = [] \<rparr>],
          CompiledGraph.assertions = [] \<rparr>
        \<lparr> RunConfig.nodes = [], includeDependencies = False \<rparr>) ''X'' = Some 2 \<and>
   dependencies
     (translate (\<lambda>m r. [])
        \<lparr> CompiledGraph.projectConfig = (),
          materializations =
            [\<lparr> name = ''X'', dependencies = [''Y''], pres = [], posts = [],
               Materialization.assertions = [] \<rparr>,
             \<lparr> name = ''Y'', dependencies = [''Y''], pres = [], posts = [],
               Materialization.assertions = [] \<rparr>],
          operations = [\<lparr> name = ''X'', dependencies = [], statements = [] \<rparr>],
          CompiledGraph.assertions = [] \<rparr>
        \<lparr> RunConfig.nodes = [], includeDependencies = False \<rparr> ! 2) = [] \<and>
   (\<forall>mp. build mp (\<lambda>cfg m r. [])
        \<lparr> CompiledGraph.projectConfig = (),
          materializations =
            [\<lparr> name = ''X'', dependencies = [''Y''], pres = [], posts = [],
               Materialization.assertions = [] \<rparr>,
             \<lparr> name = ''Y'', dependencies = [''Y''], pres = [], posts = [],
               Materialization.assertions = [] \<rparr>],
          operations = [\<lparr> name = ''X'', dependencies = [], statements = [] \<rparr>],
          CompiledGraph.assertions = [] \<rparr>
        \<lparr> RunConfig.nodes = [], includeDependencies = False \<rparr> =
      Inl (Error ''Circular dependency detected in chain: [X > Y > Y]''))"
proof -
  let ?rc = "\<lparr> RunConfig.nodes = [], includeDependencies = False \<rparr>"
  let ?dangling = "\<lparr> CompiledGraph.projectConfig = (),
          materializations =
            [\<lparr> name = ''X'', dependencies = [''Z''], pres = [], posts = [],
               Materialization.assertions = [] \<rparr>],
          operations = [\<lparr> name = ''X'', dependencies = [], statements = [] \<rparr>],
          CompiledGraph.assertions = [] \<rparr>"
  let ?looping = "\<lparr> CompiledGraph.projectConfig = (),
          materializations =
            [\<lparr> name = ''X'', dependencies = [''Y''], pres = [], posts = [],
               Materialization.assertions = [] \<rparr>,
             \<lparr> name = ''Y'', dependencies = [''Y''], pres = [], posts = [],
               Materialization.assertions = [] \<rparr>],
          operations = [\<lparr> name = ''X'', dependencies = [], statements = [] \<rparr>],
          CompiledGraph.assertions = [] \<rparr>"
  have td: "translate (\<lambda>m r. []) ?dangling ?rc =
      [\<lparr> name = ''X'', dependencies = [''Z''], tasks = [] \<rparr>,
       \<lparr> name = ''X'', dependencies = [], tasks = [] \<rparr>]"
    by (simp add: translate_def buildMaterialization_def buildOperation_def)
  have tl: "translate (\<lambda>m r. []) ?looping ?rc =
      [\<lparr> name = ''X'', dependencies = [''Y''], tasks = [] \<rparr>,
       \<lparr> name = ''Y'', dependencies = [''Y''], tasks = [] \<rparr>,
       \<lparr> name = ''X'', dependencies = [], tasks = [] \<rparr>]"
    by (simp add: translate_def buildMaterialization_def buildOperation_def)
  have a1: "nodeNameMap (translate (\<lambda>m r. []) ?dangling ?rc) ''X'' = Some 1"
    unfolding td by (simp add: nodeNameMap_def upt_rec)
  have a2: "dependencies (translate (\<lambda>m r. []) ?dangling ?rc ! 1) = []"
    unfolding td by simp
  have "validate (translate (\<lambda>m r. []) ?dangling ?rc) =
      Inl (Error (''Node '' @ [CHR 0x22] @ ''X'' @ [CHR 0x22] @ '' depends on '' @
            [CHR 0x22] @ ''Z'' @ [CHR 0x22] @ '' which does not exist.''))"
    unfolding td by code_simp
  then have a3: "\<forall>mp. build mp (\<lambda>cfg m r. []) ?dangling ?rc =
      Inl (Error (''Node '' @ [CHR 0x22] @ ''X'' @ [CHR 0x22] @ '' depends on '' @
            [CHR 0x22] @ ''Z'' @ [CHR 0x22] @ '' which does not exist.''))"
    unfolding build_Inl_iff by simp
  have b1: "nodeNameMap (translate (\<lambda>m r. []) ?looping ?rc) ''X'' = Some 2"
    unfolding tl by (simp add: nodeNameMap_def upt_rec)
  have b2: "dependencies (translate (\<lambda>m r. []) ?looping ?rc ! 2) = []"
    unfolding tl by simp
  have "validate (translate (\<lambda>m r. []) ?looping ?rc) =
      Inl (Error ''Circular dependency detected in chain: [X > Y > Y]'')"
    unfolding tl by code_simp
  then have b3: "\<forall>mp. build mp (\<lambda>cfg m r. []) ?looping ?rc =
      Inl (Error ''Circular dependency detected in chain: [X > Y > Y]'')"
    unfolding build_Inl_iff by simp
  show ?thesis
    by (intro conjI) (rule a1, rule a2, rule a3, rule b1, rule b2, rule b3)
qed

end
